theory Spec2Isabelle
  imports Main
begin

section \<open>The persistent store\<close>

text \<open>
  The engine of \<^verbatim>\<open>automata.py\<close> keeps its state in a \<^verbatim>\<open>shelve\<close> file: a
  dictionary from string keys to pickled Python values. The store is a map; the values
  the engine and its tasks put there are booleans, strings, paths, task classes
  (TaskRefs), lists of task classes, and \<^verbatim>\<open>None\<close>. A shelf opened without
  \<^verbatim>\<open>writeback\<close> pickles a value when it is assigned and unpickles a fresh copy when it
  is read, so a list kept in the store never aliases a list the engine holds.

  Console output and the process environment (\<^verbatim>\<open>os.environ\<close>, lines 27-28 of
  \<^verbatim>\<open>automata.py\<close>) are not part of the modelled state. Strings are byte strings:
  a digit is one of the ten ASCII digits.
\<close>

datatype 't val =
    VNone
  | VBool bool
  | VStr string
  | VPath string
  | VTask 't
  | VTasks "'t list"

type_synonym 't store = "string \<rightharpoonup> 't val"

text \<open>Python truth value of a stored object (\<^verbatim>\<open>not x\<close> is its negation).\<close>

fun truthy :: "'t val \<Rightarrow> bool" where
  "truthy VNone = False"
| "truthy (VBool b) = b"
| "truthy (VStr s) = (s \<noteq> [])"
| "truthy (VPath p) = True"
| "truthy (VTask t) = True"
| "truthy (VTasks ts) = (ts \<noteq> [])"

text \<open>\<^verbatim>\<open>db.get(key)\<close>: the stored value, \<^verbatim>\<open>None\<close> when the key is absent.\<close>

definition db_get :: "'t store \<Rightarrow> string \<Rightarrow> 't val" where
  "db_get d k = (case d k of None \<Rightarrow> VNone | Some v \<Rightarrow> v)"

text \<open>
  The engine reads \<^verbatim>\<open>completed_tasks\<close> as a list of TaskRefs and
  \<^verbatim>\<open>last_checkpoint\<close> as a TaskRef or \<^verbatim>\<open>None\<close>; it writes nothing else under
  these keys.
\<close>

fun as_tasks :: "'t val \<Rightarrow> 't list" where
  "as_tasks (VTasks ts) = ts"
| "as_tasks _ = []"

fun as_task :: "'t val \<Rightarrow> 't option" where
  "as_task (VTask t) = Some t"
| "as_task _ = None"

fun task_val :: "'t option \<Rightarrow> 't val" where
  "task_val None = VNone"
| "task_val (Some t) = VTask t"

section \<open>Release version parsing\<close>

text \<open>
  \<^verbatim>\<open>RELEASE_REGEXP = (?P<major>\d+)\.(?P<minor>\d+)\.(?P<patch>\d+)\.?(?P<extra>.*)?\<close>,
  applied with \<^verbatim>\<open>match\<close> (anchored at the start only). Each \<^verbatim>\<open>\d+\<close> is greedy
  and is followed by something that is not a digit, so it takes the longest run of
  digits; \<^verbatim>\<open>\.?\<close> takes a dot when there is one; \<^verbatim>\<open>.*\<close> runs to the first
  newline. The group \<^verbatim>\<open>extra\<close> always takes part in a match (with the empty
  string at least).
\<close>

definition is_digit :: "char \<Rightarrow> bool" where
  "is_digit c = (c \<in> set ''0123456789'')"

record re_match =
  major :: string
  minor :: string
  patch :: string
  extra :: string

definition optional_dot :: "string \<Rightarrow> string" where
  "optional_dot s = (case s of [] \<Rightarrow> [] | c # r \<Rightarrow> if c = CHR ''.'' then r else s)"

definition RELEASE_REGEXP_match :: "string \<Rightarrow> re_match option" where
  "RELEASE_REGEXP_match s =
     (let ma = takeWhile is_digit s; r1 = dropWhile is_digit s in
      if ma = [] then None
      else (case r1 of
        [] \<Rightarrow> None
      | c1 # s2 \<Rightarrow>
          (if c1 \<noteq> CHR ''.'' then None
           else (let mi = takeWhile is_digit s2; r2 = dropWhile is_digit s2 in
             if mi = [] then None
             else (case r2 of
               [] \<Rightarrow> None
             | c2 # s3 \<Rightarrow>
                 (if c2 \<noteq> CHR ''.'' then None
                  else (let pa = takeWhile is_digit s3; r3 = dropWhile is_digit s3 in
                    if pa = [] then None
                    else Some \<lparr>major = ma, minor = mi, patch = pa,
                               extra = takeWhile (\<lambda>c. c \<noteq> CHR 0x0A) (optional_dot r3)\<rparr>)))))))"

text \<open>\<^verbatim>\<open>match.groupdict()\<close>: every named group of the pattern is a key.\<close>

definition groupdict :: "re_match \<Rightarrow> (string \<rightharpoonup> string)" where
  "groupdict m = [''major'' \<mapsto> major m, ''minor'' \<mapsto> minor m,
                  ''patch'' \<mapsto> patch m, ''extra'' \<mapsto> extra m]"

section \<open>The engine: construction\<close>

datatype error = TypeError | AttributeError | ValueError

record 't fsm =
  db :: "'t store"
  current_task :: "'t option"
  completed_tasks :: "'t list"

text \<open>
  Lines 18-23: the shelf is opened in mode \<^verbatim>\<open>c\<close>; when \<^verbatim>\<open>finished\<close> is falsy
  (absent included) it is set to \<^verbatim>\<open>False\<close>, otherwise the shelf is closed and
  reopened in mode \<^verbatim>\<open>n\<close>, which is always a new, empty store.
\<close>

definition open_store :: "'t store \<Rightarrow> 't store" where
  "open_store d =
     (if \<not> truthy (db_get d ''finished'') then d(''finished'' \<mapsto> VBool False)
      else Map.empty)"

text \<open>
  Lines 29-30. \<^verbatim>\<open>pathlib.Path(None)\<close> raises \<^verbatim>\<open>TypeError\<close>.
\<close>

definition seed_git_repo :: "'t store \<Rightarrow> string option \<Rightarrow> error + 't store" where
  "seed_git_repo d git_repo =
     (if \<not> truthy (db_get d ''git_repo'') then
        (case git_repo of
           None \<Rightarrow> Inl TypeError
         | Some p \<Rightarrow> Inr (d(''git_repo'' \<mapsto> VPath p)))
      else Inr d)"

text \<open>
  Lines 38-48, once the match has succeeded. The branch is chosen by
  \<^verbatim>\<open>"extra" not in match.groupdict()\<close>.
\<close>

definition seed_release :: "'t store \<Rightarrow> string \<Rightarrow> re_match \<Rightarrow> 't store" where
  "seed_release d release m =
     (let d3 = (if \<not> truthy (db_get d ''release'') then d(''release'' \<mapsto> VStr release) else d);
          d4 = (if \<not> truthy (db_get d3 ''normalized_release'')
                then d3(''normalized_release'' \<mapsto> VStr (major m @ ''.'' @ minor m @ ''.'' @ patch m))
                else d3);
          d5 = (if \<not> truthy (db_get d4 ''release_branch'')
                then d4(''release_branch'' \<mapsto>
                       VStr (if groupdict m ''extra'' = None
                             then major m @ ''.'' @ minor m @ ''.'' @ patch m
                             else ''master''))
                else d4)
      in d5)"

text \<open>
  Lines 25-48 on the opened store. \<^verbatim>\<open>RELEASE_REGEXP.match(None)\<close> raises
  \<^verbatim>\<open>TypeError\<close>; \<^verbatim>\<open>match.group\<close> (line 33) on a failed match, which is
  \<^verbatim>\<open>None\<close>, raises \<^verbatim>\<open>AttributeError\<close>; the test \<^verbatim>\<open>if not match\<close> of line 36
  comes after it. The result pairs the store as the constructor leaves it, also when
  it raises, with the error or the engine.
\<close>

definition seed_config ::
  "'t store \<Rightarrow> string option \<Rightarrow> string option \<Rightarrow> 't option \<Rightarrow> 't store \<times> (error + 't fsm)" where
  "seed_config d1 release git_repo first_state =
     (let completed = (case d1 ''completed_tasks'' of None \<Rightarrow> [] | Some v \<Rightarrow> as_tasks v) in
      case seed_git_repo d1 git_repo of
        Inl e \<Rightarrow> (d1, Inl e)
      | Inr d2 \<Rightarrow>
          (case release of
             None \<Rightarrow> (d2, Inl TypeError)
           | Some r \<Rightarrow>
               (let mt = RELEASE_REGEXP_match r in
                case mt of
                  None \<Rightarrow> (d2, Inl AttributeError)
                | Some m \<Rightarrow>
                    if mt = None then (d2, Inl ValueError)
                    else let d5 = seed_release d2 r m in
                      (d5, Inr \<lparr>db = d5, current_task = first_state,
                                completed_tasks = completed\<rparr>))))"

definition FiniteStateMachine_init ::
  "'t store \<Rightarrow> string option \<Rightarrow> string option \<Rightarrow> 't option \<Rightarrow> 't store \<times> (error + 't fsm)" where
  "FiniteStateMachine_init d0 release git_repo first_state =
     seed_config (open_store d0) release git_repo first_state"

definition seeded_keys :: "string list" where
  "seeded_keys = [''git_repo'', ''release'', ''normalized_release'', ''release_branch'']"

section \<open>The engine: checkpoints\<close>

text \<open>
  \<^verbatim>\<open>checkpoint\<close> makes two writes, in this order (lines 58 and 59): the list of
  completed tasks, then the task about to run.
\<close>

definition checkpoint_completed :: "'t store \<Rightarrow> 't list \<Rightarrow> 't store" where
  "checkpoint_completed d completed = d(''completed_tasks'' \<mapsto> VTasks completed)"

definition checkpoint_last :: "'t store \<Rightarrow> 't option \<Rightarrow> 't store" where
  "checkpoint_last d current = d(''last_checkpoint'' \<mapsto> task_val current)"

definition checkpoint :: "'t fsm \<Rightarrow> 't fsm" where
  "checkpoint s =
     s\<lparr>db := checkpoint_last (checkpoint_completed (db s) (completed_tasks s)) (current_task s)\<rparr>"

definition load_checkpoint :: "'t fsm \<Rightarrow> 't fsm" where
  "load_checkpoint s = s\<lparr>current_task := as_task (db_get (db s) ''last_checkpoint'')\<rparr>"

section \<open>Tasks\<close>

text \<open>
  A task (class \<^verbatim>\<open>Task\<close>) has a body \<^verbatim>\<open>run\<close>, which may read and write the store,
  act on the world outside the program (type \<open>'w\<close>), and either return a value or raise
  (an exception of type \<open>'x\<close>), and a method \<^verbatim>\<open>next\<close> that names the successor,
  \<^verbatim>\<open>None\<close> for a terminal task. The engine maps a TaskRef (type \<open>'t\<close>) to its task.
\<close>

record ('t, 'w, 'x) task =
  task_run :: "'w \<Rightarrow> 't store \<Rightarrow> ('x + 't val) \<times> 'w \<times> 't store"
  task_next :: "'w \<Rightarrow> 't store \<Rightarrow> 't option"

section \<open>The engine: the run loop\<close>

text \<open>
  \<^verbatim>\<open>FiniteStateMachine.run\<close> (lines 65-82), one statement at a time, so that every
  point of a run is a state: the position names the statement about to execute.
  \<^item> \<open>Loop_test\<close>: line 69, the test of the \<^verbatim>\<open>while\<close>;
  \<^item> \<open>Ckpt_completed\<close>, \<open>Ckpt_last\<close>: lines 58 and 59, the two writes of \<^verbatim>\<open>checkpoint\<close>;
  \<^item> \<open>Run_task\<close>: lines 71-77, the task is built and its body run; an exception is
    raised again as it is (\<^verbatim>\<open>raise e from None\<close>);
  \<^item> \<open>Append_task\<close>: line 79; \<open>Next_task\<close>: line 80;
  \<^item> \<open>Set_finished\<close>: line 82;
  \<^item> \<open>Returned\<close>: \<^verbatim>\<open>run\<close> has returned; \<open>Raised e\<close>: it has raised \<open>e\<close>.
\<close>

datatype 'x pos =
    Loop_test
  | Ckpt_completed
  | Ckpt_last
  | Run_task
  | Append_task
  | Next_task
  | Set_finished
  | Returned
  | Raised 'x

record ('t, 'w, 'x) run_state = "'t fsm" +
  world :: 'w
  at :: "'x pos"

text \<open>
  Between the loop test and line 80 \<^verbatim>\<open>self.current_task\<close> is never \<^verbatim>\<open>None\<close>; the
  branches for \<open>None\<close> below are not reachable from \<open>Loop_test\<close> and leave the state as
  it is.
\<close>

definition run_step ::
  "('t \<Rightarrow> ('t, 'w, 'x) task) \<Rightarrow> ('t, 'w, 'x) run_state \<Rightarrow> ('t, 'w, 'x) run_state" where
  "run_step tasks c =
     (case at c of
        Loop_test \<Rightarrow>
          (case current_task c of
             None \<Rightarrow> c\<lparr>at := Set_finished\<rparr>
           | Some t \<Rightarrow> c\<lparr>at := Ckpt_completed\<rparr>)
      | Ckpt_completed \<Rightarrow>
          c\<lparr>db := checkpoint_completed (db c) (completed_tasks c), at := Ckpt_last\<rparr>
      | Ckpt_last \<Rightarrow>
          c\<lparr>db := checkpoint_last (db c) (current_task c), at := Run_task\<rparr>
      | Run_task \<Rightarrow>
          (case current_task c of
             None \<Rightarrow> c
           | Some t \<Rightarrow>
               (case task_run (tasks t) (world c) (db c) of
                  (Inl e, w, d) \<Rightarrow> c\<lparr>db := d, world := w, at := Raised e\<rparr>
                | (Inr result, w, d) \<Rightarrow> c\<lparr>db := d, world := w, at := Append_task\<rparr>))
      | Append_task \<Rightarrow>
          (case current_task c of
             None \<Rightarrow> c
           | Some t \<Rightarrow> c\<lparr>completed_tasks := completed_tasks c @ [t], at := Next_task\<rparr>)
      | Next_task \<Rightarrow>
          (case current_task c of
             None \<Rightarrow> c
           | Some t \<Rightarrow>
               c\<lparr>current_task := task_next (tasks t) (world c) (db c), at := Loop_test\<rparr>)
      | Set_finished \<Rightarrow> c\<lparr>db := (db c)(''finished'' \<mapsto> VBool True), at := Returned\<rparr>
      | Returned \<Rightarrow> c
      | Raised e \<Rightarrow> c)"

fun halted :: "'x pos \<Rightarrow> bool" where
  "halted Returned = True"
| "halted (Raised e) = True"
| "halted _ = False"

text \<open>
  The loop follows successors until none is left; nothing bounds it, so a run that
  never ends has no result (\<open>None\<close>).
\<close>

partial_function (option) run_from ::
  "('t \<Rightarrow> ('t, 'w, 'x) task) \<Rightarrow> ('t, 'w, 'x) run_state \<Rightarrow> ('t, 'w, 'x) run_state option" where
  "run_from tasks c = (if halted (at c) then Some c else run_from tasks (run_step tasks c))"

definition enter :: "'w \<Rightarrow> 't fsm \<Rightarrow> ('t, 'w, 'x) run_state" where
  "enter w s = \<lparr>db = db s, current_task = current_task s,
                completed_tasks = completed_tasks s, world = w, at = Loop_test\<rparr>"

definition run ::
  "('t \<Rightarrow> ('t, 'w, 'x) task) \<Rightarrow> 'w \<Rightarrow> 't fsm \<Rightarrow> ('t, 'w, 'x) run_state option" where
  "run tasks w s = run_from tasks (enter w s)"

text \<open>The state after \<open>n\<close> statements: the points of a run are \<open>steps tasks n c\<close>.\<close>

fun steps ::
  "('t \<Rightarrow> ('t, 'w, 'x) task) \<Rightarrow> nat \<Rightarrow> ('t, 'w, 'x) run_state \<Rightarrow> ('t, 'w, 'x) run_state" where
  "steps tasks 0 c = c"
| "steps tasks (Suc n) c = steps tasks n (run_step tasks c)"

section \<open>The release tasks\<close>

text \<open>
  The task classes of \<^verbatim>\<open>tasks.py\<close>. The four tool checks return
  \<^verbatim>\<open>shutil.which(tool)\<close>: the path of the tool, or \<^verbatim>\<open>None\<close> when it is not
  found; the lookup reads the world and is a parameter here. The bodies of the other
  tasks are processes, network calls and prompts: a parameter too.
\<close>

datatype release_task =
    check_buildbots
  | check_ssh_connection
  | check_gpg_keys
  | check_git
  | check_blurb
  | check_make
  | check_autoconf
  | check_cpython_repo_is_clean
  | run_blurb_release
  | check_docs
  | prepare_pydoc_topics
  | run_autoconf
  | check_pyspecific
  | bump_version
  | create_tag
  | build_release_artifacts
  | test_release_artifacts
  | upload_files_to_server
  | place_files_in_download_folder
  | send_email_to_platform_release_managers
  | create_release_object_in_db
  | wait_util_all_files_are_in_folder

fun release_next :: "release_task \<Rightarrow> release_task option" where
  "release_next check_buildbots = Some run_blurb_release"
| "release_next check_ssh_connection = Some check_buildbots"
| "release_next check_gpg_keys = Some check_ssh_connection"
| "release_next check_git = Some check_make"
| "release_next check_blurb = Some check_autoconf"
| "release_next check_make = Some check_blurb"
| "release_next check_autoconf = Some check_gpg_keys"
| "release_next check_cpython_repo_is_clean = None"
| "release_next run_blurb_release = Some check_docs"
| "release_next check_docs = Some prepare_pydoc_topics"
| "release_next prepare_pydoc_topics = Some run_autoconf"
| "release_next run_autoconf = Some check_pyspecific"
| "release_next check_pyspecific = Some bump_version"
| "release_next bump_version = Some create_tag"
| "release_next create_tag = Some build_release_artifacts"
| "release_next build_release_artifacts = Some test_release_artifacts"
| "release_next test_release_artifacts = Some upload_files_to_server"
| "release_next upload_files_to_server = Some place_files_in_download_folder"
| "release_next place_files_in_download_folder = Some send_email_to_platform_release_managers"
| "release_next send_email_to_platform_release_managers = Some create_release_object_in_db"
| "release_next create_release_object_in_db = Some wait_util_all_files_are_in_folder"
| "release_next wait_util_all_files_are_in_folder = None"

fun which_val :: "string option \<Rightarrow> 't val" where
  "which_val None = VNone"
| "which_val (Some p) = VStr p"

definition check_tool ::
  "('w \<Rightarrow> string \<Rightarrow> string option) \<Rightarrow> string \<Rightarrow>
   'w \<Rightarrow> release_task store \<Rightarrow> ('x + release_task val) \<times> 'w \<times> release_task store" where
  "check_tool which tool w d = (Inr (which_val (which w tool)), w, d)"

definition release_run ::
  "('w \<Rightarrow> string \<Rightarrow> string option) \<Rightarrow>
   (release_task \<Rightarrow> 'w \<Rightarrow> release_task store \<Rightarrow> ('x + release_task val) \<times> 'w \<times> release_task store) \<Rightarrow>
   release_task \<Rightarrow> 'w \<Rightarrow> release_task store \<Rightarrow> ('x + release_task val) \<times> 'w \<times> release_task store" where
  "release_run which body t =
     (if t = check_git then check_tool which ''git''
      else if t = check_blurb then check_tool which ''blurb''
      else if t = check_make then check_tool which ''make''
      else if t = check_autoconf then check_tool which ''autoconf''
      else body t)"

definition release_tasks ::
  "('w \<Rightarrow> string \<Rightarrow> string option) \<Rightarrow>
   (release_task \<Rightarrow> 'w \<Rightarrow> release_task store \<Rightarrow> ('x + release_task val) \<times> 'w \<times> release_task store) \<Rightarrow>
   release_task \<Rightarrow> (release_task, 'w, 'x) task" where
  "release_tasks which body t =
     \<lparr>task_run = release_run which body t, task_next = (\<lambda>w d. release_next t)\<rparr>"

text \<open>
  The entry script (lines 517-519 of \<^verbatim>\<open>tasks.py\<close>) builds the engine with no
  \<^verbatim>\<open>first_state\<close>, loads the checkpoint, and when \<^verbatim>\<open>load_checkpoint\<close> returns
  nothing starts the chain at \<^verbatim>\<open>check_git\<close>: \<open>resume_or_start automata check_git\<close>.
\<close>

definition resume_or_start :: "'t fsm \<Rightarrow> 't \<Rightarrow> 't fsm" where
  "resume_or_start automata start =
     (let a = load_checkpoint automata in
      if current_task a = None then a\<lparr>current_task := Some start\<rparr> else a)"

section \<open>Properties of tasks and of runs\<close>

text \<open>
  The keys \<^verbatim>\<open>finished\<close>, \<^verbatim>\<open>completed_tasks\<close> and \<^verbatim>\<open>last_checkpoint\<close> belong to
  the engine. A set of tasks keeps them when no task body writes them.
\<close>

definition engine_keys :: "string list" where
  "engine_keys = [''finished'', ''completed_tasks'', ''last_checkpoint'']"

definition keeps_engine_keys :: "('t \<Rightarrow> ('t, 'w, 'x) task) \<Rightarrow> bool" where
  "keeps_engine_keys tasks =
     (\<forall>t w d. \<forall>k\<in>set engine_keys. snd (snd (task_run (tasks t) w d)) k = d k)"

text \<open>
  A chain never comes back to a task when every successor has a higher rank; the
  history of an engine lies before its current task when every completed task has a
  lower rank than the task the engine points at.
\<close>

definition ascending :: "('t \<Rightarrow> ('t, 'w, 'x) task) \<Rightarrow> ('t \<Rightarrow> nat) \<Rightarrow> bool" where
  "ascending tasks rank =
     (\<forall>t w d t'. task_next (tasks t) w d = Some t' \<longrightarrow> rank t < rank t')"

definition history_before :: "('t \<Rightarrow> nat) \<Rightarrow> 't fsm \<Rightarrow> bool" where
  "history_before rank s =
     (\<forall>t. current_task s = Some t \<longrightarrow> (\<forall>u\<in>set (completed_tasks s). rank u < rank t))"

text \<open>
  How the store stands to the engine's own fields at a point of a run.
  \<^item> \<open>checkpointed\<close>: the checkpoint names the current task and the stored list is the
    engine's list.
  \<^item> \<open>completed_pending\<close>: the checkpointed task has been appended to the engine's list,
    and the store still holds the list without it.
  \<^item> \<open>pristine\<close>: no checkpoint of this run has been written yet.
\<close>

definition checkpointed :: "('t, 'w, 'x) run_state \<Rightarrow> bool" where
  "checkpointed c =
     (current_task c \<noteq> None \<and>
      db c ''last_checkpoint'' = Some (task_val (current_task c)) \<and>
      db c ''completed_tasks'' = Some (VTasks (completed_tasks c)))"

definition completed_pending :: "('t, 'w, 'x) run_state \<Rightarrow> bool" where
  "completed_pending c =
     (completed_tasks c \<noteq> [] \<and>
      db c ''last_checkpoint'' = Some (VTask (last (completed_tasks c))) \<and>
      db c ''completed_tasks'' = Some (VTasks (butlast (completed_tasks c))))"

definition pristine :: "('t, 'w, 'x) run_state \<Rightarrow> ('t, 'w, 'x) run_state \<Rightarrow> bool" where
  "pristine c0 c =
     (db c ''last_checkpoint'' = db c0 ''last_checkpoint'' \<and>
      completed_tasks c = completed_tasks c0 \<and>
      current_task c = current_task c0)"

definition progressed :: "('t, 'w, 'x) run_state \<Rightarrow> ('t, 'w, 'x) run_state \<Rightarrow> bool" where
  "progressed c0 c =
     (completed_pending c \<and> length (completed_tasks c0) < length (completed_tasks c))"

text \<open>The invariant of a run that started at \<open>c0\<close>, position by position.\<close>

definition run_inv :: "('t, 'w, 'x) run_state \<Rightarrow> ('t, 'w, 'x) run_state \<Rightarrow> bool" where
  "run_inv c0 c =
     (length (completed_tasks c0) \<le> length (completed_tasks c) \<and>
      (case at c of
         Loop_test \<Rightarrow> pristine c0 c \<or> progressed c0 c
       | Ckpt_completed \<Rightarrow> current_task c \<noteq> None \<and> (pristine c0 c \<or> progressed c0 c)
       | Ckpt_last \<Rightarrow>
           current_task c \<noteq> None \<and>
           db c ''completed_tasks'' = Some (VTasks (completed_tasks c)) \<and>
           (pristine c0 c \<or>
            (length (completed_tasks c0) < length (completed_tasks c) \<and>
             db c ''last_checkpoint'' = Some (VTask (last (completed_tasks c)))))
       | Run_task \<Rightarrow> checkpointed c
       | Append_task \<Rightarrow> checkpointed c
       | Next_task \<Rightarrow> progressed c0 c \<and> current_task c = Some (last (completed_tasks c))
       | Set_finished \<Rightarrow> current_task c = None \<and> (pristine c0 c \<or> progressed c0 c)
       | Returned \<Rightarrow>
           current_task c = None \<and> db c ''finished'' = Some (VBool True) \<and>
           (pristine c0 c \<or> progressed c0 c)
       | Raised e \<Rightarrow> checkpointed c))"

definition rank_inv :: "('t \<Rightarrow> nat) \<Rightarrow> ('t, 'w, 'x) run_state \<Rightarrow> bool" where
  "rank_inv rank c =
     (\<forall>t. current_task c = Some t \<longrightarrow>
        (\<forall>u\<in>set (completed_tasks c).
           if at c = Next_task then rank u \<le> rank t else rank u < rank t))"

text \<open>
  The tasks whose body has returned without raising, in the order they ran:
  \<open>returned_task\<close> is the task of the statement at \<open>c\<close> when that statement is a body
  that returns, \<open>succeeded tasks n c\<close> collects them over \<open>n\<close> statements. \<open>pending\<close> is
  the task that has returned and is not appended yet.
\<close>

definition returned_task :: "('t \<Rightarrow> ('t, 'w, 'x) task) \<Rightarrow> ('t, 'w, 'x) run_state \<Rightarrow> 't list" where
  "returned_task tasks c =
     (case current_task c of
        None \<Rightarrow> []
      | Some t \<Rightarrow> if at c = Run_task \<and> at (run_step tasks c) = Append_task then [t] else [])"

fun succeeded :: "('t \<Rightarrow> ('t, 'w, 'x) task) \<Rightarrow> nat \<Rightarrow> ('t, 'w, 'x) run_state \<Rightarrow> 't list" where
  "succeeded tasks 0 c = []"
| "succeeded tasks (Suc n) c = returned_task tasks c @ succeeded tasks n (run_step tasks c)"

definition pending :: "('t, 'w, 'x) run_state \<Rightarrow> 't list" where
  "pending c =
     (case current_task c of
        None \<Rightarrow> []
      | Some t \<Rightarrow> if at c = Append_task then [t] else [])"

section \<open>A chain of three tasks\<close>

text \<open>
  The chain \<open>T1 \<rightarrow> T2 \<rightarrow> T3\<close> of the specification's end-to-end scenario, \<open>T3\<close>
  terminal. The world is one flag: while it is set, the body of \<open>T2\<close> raises. No body
  touches the store.
\<close>

datatype scenario_task = T1 | T2 | T3

fun scenario_next :: "scenario_task \<Rightarrow> scenario_task option" where
  "scenario_next T1 = Some T2"
| "scenario_next T2 = Some T3"
| "scenario_next T3 = None"

definition scenario_tasks :: "scenario_task \<Rightarrow> (scenario_task, bool, string) task" where
  "scenario_tasks t =
     \<lparr>task_run = (\<lambda>broken d. if t = T2 \<and> broken then (Inl ''T2 failed'', broken, d)
                                else (Inr VNone, broken, d)),
      task_next = (\<lambda>w d. scenario_next t)\<rparr>"

fun scenario_rank :: "scenario_task \<Rightarrow> nat" where
  "scenario_rank T1 = 1"
| "scenario_rank T2 = 2"
| "scenario_rank T3 = 3"

definition scenario_fresh :: "scenario_task fsm" where
  "scenario_fresh =
     \<lparr>db = [''finished'' \<mapsto> VBool False, ''git_repo'' \<mapsto> VPath ''/repo'',
             ''release'' \<mapsto> VStr ''3.10.1'', ''normalized_release'' \<mapsto> VStr ''3.10.1'',
             ''release_branch'' \<mapsto> VStr ''master''],
      current_task = Some T1, completed_tasks = []\<rparr>"

section \<open>Release version parsing: lemmas\<close>

lemma takeWhile_digits:
  "\<forall>c\<in>set xs. is_digit c \<Longrightarrow> ys = [] \<or> \<not> is_digit (hd ys) \<Longrightarrow> takeWhile is_digit (xs @ ys) = xs"
  by (cases ys) auto

lemma dropWhile_digits:
  "\<forall>c\<in>set xs. is_digit c \<Longrightarrow> ys = [] \<or> \<not> is_digit (hd ys) \<Longrightarrow> dropWhile is_digit (xs @ ys) = ys"
  by (cases ys) auto

lemma dot_not_digit: "\<not> is_digit CHR ''.''"
  by (simp add: is_digit_def)

lemma match_version:
  assumes "ma \<noteq> []" "\<forall>c\<in>set ma. is_digit c"
    and "mi \<noteq> []" "\<forall>c\<in>set mi. is_digit c"
    and "pa \<noteq> []" "\<forall>c\<in>set pa. is_digit c"
    and "suffix = [] \<or> \<not> is_digit (hd suffix)"
  shows "\<exists>e. RELEASE_REGEXP_match (ma @ ''.'' @ mi @ ''.'' @ pa @ suffix) =
           Some \<lparr>major = ma, minor = mi, patch = pa, extra = e\<rparr>"
proof -
  let ?s3 = "pa @ suffix"
  let ?s2 = "mi @ CHR ''.'' # ?s3"
  have 1: "takeWhile is_digit (ma @ CHR ''.'' # ?s2) = ma"
    "dropWhile is_digit (ma @ CHR ''.'' # ?s2) = CHR ''.'' # ?s2"
    using assms(2) by (simp_all add: takeWhile_digits dropWhile_digits dot_not_digit)
  have 2: "takeWhile is_digit ?s2 = mi" "dropWhile is_digit ?s2 = CHR ''.'' # ?s3"
    using assms(4) by (simp_all add: takeWhile_digits dropWhile_digits dot_not_digit)
  have 3: "takeWhile is_digit ?s3 = pa" "dropWhile is_digit ?s3 = suffix"
    using takeWhile_digits [OF assms(6,7)] dropWhile_digits [OF assms(6,7)] by blast+
  show ?thesis
    using assms(1,3,5) 1 2 3 by (simp add: RELEASE_REGEXP_match_def Let_def)
qed

lemma match_nonempty: "RELEASE_REGEXP_match r = Some m \<Longrightarrow> r \<noteq> []"
  by (auto simp: RELEASE_REGEXP_match_def)

section \<open>Construction: lemmas\<close>

lemmas init_eval =
  FiniteStateMachine_init_def seed_config_def open_store_def seed_git_repo_def
  seed_release_def db_get_def RELEASE_REGEXP_match_def optional_dot_def is_digit_def
  groupdict_def Let_def

lemma seed_release_apply:
  "seed_release d r m k =
     (if k = ''release'' \<and> \<not> truthy (db_get d ''release'') then Some (VStr r)
      else if k = ''normalized_release'' \<and> \<not> truthy (db_get d ''normalized_release'')
        then Some (VStr (major m @ ''.'' @ minor m @ ''.'' @ patch m))
      else if k = ''release_branch'' \<and> \<not> truthy (db_get d ''release_branch'')
        then Some (VStr ''master'')
      else d k)"
  by (simp add: seed_release_def db_get_def Let_def groupdict_def)

lemma seed_git_repo_apply:
  "seed_git_repo d g = Inr d2 \<Longrightarrow>
   d2 k = (if k = ''git_repo'' \<and> \<not> truthy (db_get d ''git_repo'')
           then map_option VPath g else d k)"
  by (auto simp: seed_git_repo_def split: if_splits option.splits)

lemma seed_git_repo_Inl:
  "seed_git_repo d g = Inl e \<Longrightarrow> e = TypeError \<and> g = None \<and> \<not> truthy (db_get d ''git_repo'')"
  by (auto simp: seed_git_repo_def split: if_splits option.splits)

lemma seed_config_cases:
  "(seed_git_repo d g = Inl TypeError \<and> seed_config d release g first = (d, Inl TypeError)) \<or>
   (\<exists>d2. seed_git_repo d g = Inr d2 \<and>
      ((release = None \<and> seed_config d release g first = (d2, Inl TypeError)) \<or>
       (\<exists>r. release = Some r \<and> RELEASE_REGEXP_match r = None \<and>
          seed_config d release g first = (d2, Inl AttributeError)) \<or>
       (\<exists>r m. release = Some r \<and> RELEASE_REGEXP_match r = Some m \<and>
          seed_config d release g first =
            (seed_release d2 r m,
             Inr \<lparr>db = seed_release d2 r m, current_task = first,
                  completed_tasks = (case d ''completed_tasks'' of None \<Rightarrow> [] | Some v \<Rightarrow> as_tasks v)\<rparr>))))"
  by (auto simp: seed_config_def Let_def dest: seed_git_repo_Inl split: sum.splits option.splits)

lemma open_store_finished: "\<not> truthy (db_get (open_store d) ''finished'')"
  by (simp add: open_store_def db_get_def)

lemma open_store_other:
  "\<not> truthy (db_get d ''finished'') \<Longrightarrow> k \<noteq> ''finished'' \<Longrightarrow> open_store d k = d k"
  by (simp add: open_store_def)

lemma init_store_cases:
  "fst (FiniteStateMachine_init d release g first) = d' \<Longrightarrow>
   d' = open_store d \<or>
   (\<exists>d2. seed_git_repo (open_store d) g = Inr d2 \<and>
      (d' = d2 \<or> (\<exists>r m. release = Some r \<and> RELEASE_REGEXP_match r = Some m \<and> d' = seed_release d2 r m)))"
  using seed_config_cases [where d = "open_store d" and release = release and g = g and first = first]
  by (auto simp: FiniteStateMachine_init_def)

lemma seeded_key_cases:
  "k \<in> set seeded_keys \<longleftrightarrow>
   k = ''git_repo'' \<or> k = ''release'' \<or> k = ''normalized_release'' \<or> k = ''release_branch''"
  by (auto simp: seeded_keys_def)

lemma seed_git_repo_keeps:
  "seed_git_repo d g = Inr d2 \<Longrightarrow> k \<notin> set seeded_keys \<or> truthy (db_get d k) \<Longrightarrow> d2 k = d k"
  by (auto simp: seed_git_repo_apply seeded_key_cases)

lemma seed_release_keeps:
  "k \<notin> set seeded_keys \<or> truthy (db_get d k) \<Longrightarrow> seed_release d r m k = d k"
  by (auto simp: seed_release_apply seeded_key_cases)

lemma init_keeps:
  assumes "k \<notin> set seeded_keys \<or> truthy (db_get (open_store d) k)"
  shows "fst (FiniteStateMachine_init d release g first) k = open_store d k"
proof -
  from init_store_cases [OF refl, of d release g first]
  consider "fst (FiniteStateMachine_init d release g first) = open_store d"
    | d2 where "seed_git_repo (open_store d) g = Inr d2"
        "fst (FiniteStateMachine_init d release g first) = d2"
    | d2 r m where "seed_git_repo (open_store d) g = Inr d2"
        "fst (FiniteStateMachine_init d release g first) = seed_release d2 r m"
    by blast
  then show ?thesis
  proof cases
    case 1
    then show ?thesis by simp
  next
    case 2
    with seed_git_repo_keeps [OF 2(1) assms] show ?thesis by simp
  next
    case 3
    have a: "d2 k = open_store d k" by (rule seed_git_repo_keeps [OF 3(1) assms])
    with assms have "k \<notin> set seeded_keys \<or> truthy (db_get d2 k)"
      by (auto simp: db_get_def)
    from seed_release_keeps [OF this] a 3(2) show ?thesis by simp
  qed
qed

lemma init_success:
  assumes "FiniteStateMachine_init d release g first = (d1, Inr s)"
  shows "\<exists>d2 r m. seed_git_repo (open_store d) g = Inr d2 \<and> release = Some r \<and>
           RELEASE_REGEXP_match r = Some m \<and> d1 = seed_release d2 r m \<and>
           s = \<lparr>db = d1, current_task = first,
                completed_tasks = (case open_store d ''completed_tasks'' of None \<Rightarrow> [] | Some v \<Rightarrow> as_tasks v)\<rparr>"
  using seed_config_cases [where d = "open_store d" and release = release and g = g and first = first] assms
  by (auto simp: FiniteStateMachine_init_def)

lemma init_success_truthy:
  assumes "FiniteStateMachine_init d release g first = (d1, Inr s)"
    and "k \<in> set seeded_keys"
  shows "truthy (db_get d1 k)"
proof -
  from init_success [OF assms(1)] obtain d2 r m where
    g: "seed_git_repo (open_store d) g = Inr d2" and m: "RELEASE_REGEXP_match r = Some m"
    and d1: "d1 = seed_release d2 r m"
    by blast
  have "truthy (db_get d2 ''git_repo'')"
    using g by (auto simp: seed_git_repo_def db_get_def split: if_splits option.splits)
  with assms(2) match_nonempty [OF m] show ?thesis
    unfolding d1 seeded_key_cases
    by (auto simp: db_get_def seed_release_apply)
qed

lemma init_success_unfinished:
  assumes "FiniteStateMachine_init d release g first = (d1, Inr s)"
  shows "\<not> truthy (db_get d1 ''finished'')"
proof -
  from assms have "fst (FiniteStateMachine_init d release g first) = d1" by simp
  moreover have "''finished'' \<notin> set seeded_keys" by (simp add: seeded_keys_def)
  ultimately have "d1 ''finished'' = open_store d ''finished''"
    using init_keeps [of "''finished''" d release g first] by simp
  then have "db_get d1 ''finished'' = db_get (open_store d) ''finished''"
    by (simp add: db_get_def)
  then show ?thesis by (simp add: open_store_finished)
qed

lemma init_Inr:
  assumes "snd (FiniteStateMachine_init d release g first) = Inr s"
  shows "FiniteStateMachine_init d release g first = (db s, Inr s)"
proof -
  have "FiniteStateMachine_init d release g first =
      (fst (FiniteStateMachine_init d release g first), Inr s)"
    using assms by (metis prod.collapse)
  from init_success [OF this] this show ?thesis by auto
qed

text \<open>
  Whatever version the pattern matches, with a suffix or without one, the branch seeded
  on a store that holds none is \<^verbatim>\<open>master\<close>.
\<close>

lemma seeded_branch_is_master:
  assumes "RELEASE_REGEXP_match r = Some m"
    and "truthy (db_get d ''finished'') \<or> \<not> truthy (db_get d ''release_branch'')"
  shows "\<exists>s. FiniteStateMachine_init d (Some r) (Some g) first = (db s, Inr s) \<and>
           db s ''release_branch'' = Some (VStr ''master'')"
proof -
  obtain d2 where d2: "seed_git_repo (open_store d) (Some g) = Inr d2"
    by (cases "truthy (db_get (open_store d) ''git_repo'')") (auto simp: seed_git_repo_def)
  have "\<not> truthy (db_get (open_store d) ''release_branch'')"
    using assms(2) by (auto simp: open_store_def db_get_def)
  then have n: "\<not> truthy (db_get d2 ''release_branch'')"
    using seed_git_repo_apply [OF d2, of "''release_branch''"] by (simp add: db_get_def)
  show ?thesis
    using assms(1) d2 n
    by (simp add: FiniteStateMachine_init_def seed_config_def Let_def seed_release_apply)
qed

section \<open>The run loop: lemmas\<close>

lemmas run_eval =
  enter_def run_step_def checkpoint_completed_def checkpoint_last_def

lemma enter_simps [simp]:
  "db (enter w s) = db s" "current_task (enter w s) = current_task s"
  "completed_tasks (enter w s) = completed_tasks s" "world (enter w s) = w"
  "at (enter w s) = Loop_test"
  by (simp_all add: enter_def)

lemma run_step_halted: "halted (at c) \<Longrightarrow> run_step tasks c = c"
  by (cases "at c") (simp_all add: run_step_def)

lemma steps_halted: "halted (at c) \<Longrightarrow> steps tasks n c = c"
  by (induction n) (simp_all add: run_step_halted)

lemma steps_add: "steps tasks (m + n) c = steps tasks n (steps tasks m c)"
  by (induction m arbitrary: c) simp_all

lemma steps_Suc_end: "steps tasks (Suc n) c = run_step tasks (steps tasks n c)"
  using steps_add [of tasks n 1 c] by simp

lemma run_from_steps:
  "halted (at (steps tasks n c)) \<Longrightarrow> run_from tasks c = Some (steps tasks n c)"
proof (induction n arbitrary: c)
  case 0
  then show ?case by (subst run_from.simps) simp
next
  case (Suc n)
  show ?case
  proof (cases "halted (at c)")
    case True
    then show ?thesis
      by (subst run_from.simps) (simp add: run_step_halted steps_halted)
  next
    case False
    then show ?thesis
      using Suc by (subst run_from.simps) simp
  qed
qed

lemma run_from_Some:
  fixes tasks :: "'t \<Rightarrow> ('t, 'w, 'x) task"
  assumes "run_from tasks c = Some c'"
  shows "\<exists>n. c' = steps tasks n c \<and> halted (at c')"
proof (rule run_from.raw_induct
    [where P = "\<lambda>t x y. \<exists>n. y = steps t n x \<and> halted (at y)", OF _ assms])
  fix rf :: "('t \<Rightarrow> ('t, 'w, 'x) task) \<Rightarrow> ('t, 'w, 'x) run_state \<Rightarrow> ('t, 'w, 'x) run_state option"
    and t :: "'t \<Rightarrow> ('t, 'w, 'x) task" and x y :: "('t, 'w, 'x) run_state"
  assume IH: "\<And>a b z. rf a b = Some z \<Longrightarrow> \<exists>n. z = steps a n b \<and> halted (at z)"
    and eq: "(if halted (at x) then Some x else rf t (run_step t x)) = Some y"
  show "\<exists>n. y = steps t n x \<and> halted (at y)"
  proof (cases "halted (at x)")
    case True
    with eq have "y = steps t 0 x \<and> halted (at y)" by auto
    then show ?thesis by blast
  next
    case False
    with eq have "rf t (run_step t x) = Some y" by simp
    from IH [OF this] obtain n where "y = steps t n (run_step t x)" "halted (at y)"
      by blast
    then have "y = steps t (Suc n) x" by simp
    with \<open>halted (at y)\<close> show ?thesis by blast
  qed
qed

lemma steps_invariant:
  assumes "I c" and "\<And>c. I c \<Longrightarrow> I (run_step tasks c)"
  shows "I (steps tasks n c)"
  using assms(1) by (induction n arbitrary: c) (simp_all add: assms(2))

lemma keeps_engine_keysD:
  "keeps_engine_keys tasks \<Longrightarrow> task_run (tasks t) w d = (r, w', d') \<Longrightarrow>
   d' ''finished'' = d ''finished'' \<and>
   d' ''completed_tasks'' = d ''completed_tasks'' \<and>
   d' ''last_checkpoint'' = d ''last_checkpoint''"
proof -
  assume k: "keeps_engine_keys tasks" and r: "task_run (tasks t) w d = (r, w', d')"
  have "snd (snd (task_run (tasks t) w d)) key = d key" if "key \<in> set engine_keys" for key
    using k that unfolding keeps_engine_keys_def by blast
  then show ?thesis by (simp add: r engine_keys_def)
qed

lemma run_step_Run_task:
  "at c = Run_task \<Longrightarrow> current_task c = Some t \<Longrightarrow>
   task_run (tasks t) (world c) (db c) = (r, w, d) \<Longrightarrow>
   run_step tasks c = c\<lparr>db := d, world := w,
      at := (case r of Inl e \<Rightarrow> Raised e | Inr v \<Rightarrow> Append_task)\<rparr>"
  by (cases r) (simp_all add: run_step_def)

lemma run_inv_step:
  assumes k: "keeps_engine_keys tasks" and i: "run_inv c0 c"
  shows "run_inv c0 (run_step tasks c)"
proof (cases "at c")
  case Loop_test
  with i show ?thesis
    by (cases "current_task c")
       (auto simp: run_inv_def run_step_def pristine_def progressed_def completed_pending_def)
next
  case Ckpt_completed
  with i show ?thesis
    by (auto simp: run_inv_def run_step_def pristine_def progressed_def completed_pending_def
        checkpoint_completed_def)
next
  case Ckpt_last
  with i show ?thesis
    by (auto simp: run_inv_def run_step_def checkpointed_def checkpoint_last_def)
next
  case Run_task
  with i obtain t where t: "current_task c = Some t" and cp: "checkpointed c"
    and le: "length (completed_tasks c0) \<le> length (completed_tasks c)"
    by (auto simp: run_inv_def checkpointed_def)
  obtain r w d where r: "task_run (tasks t) (world c) (db c) = (r, w, d)"
    by (cases "task_run (tasks t) (world c) (db c)") auto
  from keeps_engine_keysD [OF k r] cp have "checkpointed (c\<lparr>db := d, world := w\<rparr>)"
    by (simp add: checkpointed_def)
  with Run_task t r le show ?thesis
    by (cases r) (simp_all add: run_inv_def run_step_def checkpointed_def)
next
  case Append_task
  with i show ?thesis
    by (auto simp: run_inv_def run_step_def checkpointed_def progressed_def completed_pending_def)
next
  case Next_task
  with i show ?thesis
    by (auto simp: run_inv_def run_step_def progressed_def completed_pending_def)
next
  case Set_finished
  with i show ?thesis
    by (auto simp: run_inv_def run_step_def pristine_def progressed_def completed_pending_def)
next
  case Returned
  with i show ?thesis by (simp add: run_step_def)
next
  case (Raised e)
  with i show ?thesis by (simp add: run_step_def)
qed

lemma run_inv_enter: "run_inv (enter w s) (enter w s)"
  by (simp add: run_inv_def enter_def pristine_def)

lemma run_inv_steps:
  "keeps_engine_keys tasks \<Longrightarrow> run_inv (enter w s) (steps tasks n (enter w s))"
  by (rule steps_invariant [where I = "run_inv (enter w s)"]) (simp_all add: run_inv_enter run_inv_step)

lemma finished_step:
  assumes k: "keeps_engine_keys tasks" and n: "at (run_step tasks c) \<noteq> Returned"
  shows "db (run_step tasks c) ''finished'' = db c ''finished''"
proof (cases "at c")
  case Run_task
  show ?thesis
  proof (cases "current_task c")
    case None
    with Run_task show ?thesis by (simp add: run_step_def)
  next
    case (Some t)
    obtain r w d where r: "task_run (tasks t) (world c) (db c) = (r, w, d)"
      by (cases "task_run (tasks t) (world c) (db c)") auto
    with keeps_engine_keysD [OF k r] Run_task Some show ?thesis
      by (cases r) (simp_all add: run_step_def)
  qed
qed (use n in \<open>auto simp: run_step_def checkpoint_completed_def checkpoint_last_def split: option.splits\<close>)

lemma not_returned_step: "at (run_step tasks c) \<noteq> Returned \<Longrightarrow> at c \<noteq> Returned"
  by (auto simp: run_step_def)

lemma finished_steps:
  "keeps_engine_keys tasks \<Longrightarrow> at (steps tasks n c) \<noteq> Returned \<Longrightarrow>
   db (steps tasks n c) ''finished'' = db c ''finished''"
proof (induction n)
  case 0
  then show ?case by simp
next
  case (Suc n)
  have a: "at (run_step tasks (steps tasks n c)) \<noteq> Returned"
    using Suc.prems(2) unfolding steps_Suc_end .
  have "db (steps tasks (Suc n) c) ''finished'' = db (steps tasks n c) ''finished''"
    unfolding steps_Suc_end by (rule finished_step [OF Suc.prems(1) a])
  with Suc.IH [OF Suc.prems(1) not_returned_step [OF a]] show ?case by simp
qed

lemma rank_inv_step:
  assumes a: "ascending tasks rank" and i: "rank_inv rank c"
  shows "rank_inv rank (run_step tasks c)"
proof (cases "at c")
  case Run_task
  show ?thesis
  proof (cases "current_task c")
    case None
    with Run_task i show ?thesis by (simp add: run_step_def)
  next
    case (Some t)
    obtain r w d where r: "task_run (tasks t) (world c) (db c) = (r, w, d)"
      by (cases "task_run (tasks t) (world c) (db c)") auto
    from i Run_task Some show ?thesis
      unfolding run_step_Run_task [where tasks = tasks, OF Run_task Some r]
      by (cases r) (auto simp: rank_inv_def)
  qed
next
  case Append_task
  with i show ?thesis
    by (auto simp: rank_inv_def run_step_def less_imp_le split: option.splits)
next
  case Next_task
  show ?thesis
  proof (cases "current_task c")
    case None
    with Next_task i show ?thesis by (simp add: run_step_def)
  next
    case (Some t)
    have "rank u < rank t'" if "task_next (tasks t) (world c) (db c) = Some t'"
      and "u \<in> set (completed_tasks c)" for u t'
    proof -
      from i Next_task Some that(2) have "rank u \<le> rank t" by (auto simp: rank_inv_def)
      moreover from a that(1) have "rank t < rank t'" by (auto simp: ascending_def)
      ultimately show ?thesis by simp
    qed
    with Next_task Some show ?thesis by (auto simp: rank_inv_def run_step_def)
  qed
qed (use i in \<open>auto simp: rank_inv_def run_step_def split: option.splits\<close>)

lemma rank_inv_steps:
  "ascending tasks rank \<Longrightarrow> history_before rank s \<Longrightarrow>
   rank_inv rank (steps tasks n (enter w s))"
  by (rule steps_invariant [where I = "rank_inv rank"])
     (simp_all add: rank_inv_step, simp add: rank_inv_def history_before_def enter_def)

lemma pending_step:
  "completed_tasks (run_step tasks c) @ pending (run_step tasks c) =
   completed_tasks c @ pending c @ returned_task tasks c"
proof (cases "at c")
  case Run_task
  show ?thesis
  proof (cases "current_task c")
    case None
    with Run_task show ?thesis by (simp add: run_step_def pending_def returned_task_def)
  next
    case (Some t)
    obtain r w d where r: "task_run (tasks t) (world c) (db c) = (r, w, d)"
      by (cases "task_run (tasks t) (world c) (db c)") auto
    from Run_task Some show ?thesis
      by (cases r) (simp_all add: run_step_Run_task [where tasks = tasks, OF Run_task Some r] pending_def returned_task_def)
  qed
qed (auto simp: run_step_def pending_def returned_task_def split: option.splits)

lemma pending_steps:
  "completed_tasks (steps tasks n c) @ pending (steps tasks n c) =
   completed_tasks c @ pending c @ succeeded tasks n c"
proof (induction n arbitrary: c)
  case 0
  then show ?case by simp
next
  case (Suc n)
  have "completed_tasks (steps tasks (Suc n) c) @ pending (steps tasks (Suc n) c) =
        (completed_tasks (run_step tasks c) @ pending (run_step tasks c)) @ succeeded tasks n (run_step tasks c)"
    using Suc [of "run_step tasks c"] by simp
  then show ?case by (simp add: pending_step)
qed

lemma pending_enter: "pending (enter w s) = []"
  by (simp add: pending_def split: option.splits)

section \<open>The chain of three tasks: lemmas\<close>

lemma keeps_scenario: "keeps_engine_keys scenario_tasks"
  by (simp add: keeps_engine_keys_def scenario_tasks_def)

lemma ascending_scenario: "ascending scenario_tasks scenario_rank"
proof -
  have "scenario_rank t < scenario_rank t'" if "scenario_next t = Some t'" for t t'
    using that by (cases t) auto
  then show ?thesis by (simp add: ascending_def scenario_tasks_def)
qed

lemma history_scenario: "history_before scenario_rank scenario_fresh"
  by (simp add: history_before_def scenario_fresh_def)

lemma scenario_completes:
  "run scenario_tasks False scenario_fresh = Some (steps scenario_tasks 20 (enter False scenario_fresh))"
  unfolding run_def
  by (rule run_from_steps)
     (simp add: eval_nat_numeral run_eval scenario_fresh_def scenario_tasks_def)

lemma scenario_T2_point:
  "steps scenario_tasks 9 (enter True scenario_fresh) =
     \<lparr>db = (db scenario_fresh)(''completed_tasks'' \<mapsto> VTasks [],
             ''last_checkpoint'' \<mapsto> VTask T1, ''completed_tasks'' \<mapsto> VTasks [T1],
             ''last_checkpoint'' \<mapsto> VTask T2),
       current_task = Some T2, completed_tasks = [T1], world = True, at = Run_task\<rparr>"
  by (simp add: eval_nat_numeral run_eval scenario_fresh_def scenario_tasks_def)

section \<open>The claims\<close>

subsection \<open>C1: the derived release branch\<close>

text \<open>
  Claim C1 says that the branch stored under \<^verbatim>\<open>release_branch\<close> is
  \<^verbatim>\<open><major>.<minor>.<patch>\<close> when the version has no suffix. The constructor
  chooses the branch by the test \<^verbatim>\<open>"extra" not in match.groupdict()\<close>, and
  \<^verbatim>\<open>groupdict()\<close> lists every named group of the pattern, so the test is never
  true: on an empty store the version \<^verbatim>\<open>3.10.1\<close>, which has no suffix, gets the
  branch \<^verbatim>\<open>master\<close>.
\<close>

theorem release_branch_without_suffix:
  "fst (FiniteStateMachine_init Map.empty (Some ''3.10.1'') (Some ''/repo'')
          (None :: release_task option)) ''release_branch'' = Some (VStr ''master'')"
  by (simp add: init_eval)

subsection \<open>C2: a malformed version\<close>

text \<open>
  Claim C2, as amended. For every version string the release pattern does not match,
  construction fails with an error, and the store it leaves is the opened store (the
  \<^verbatim>\<open>finished\<close> flag set to \<^verbatim>\<open>False\<close>, or the store reset) at every key but
  \<^verbatim>\<open>git_repo\<close>: none of \<^verbatim>\<open>release\<close>, \<^verbatim>\<open>normalized_release\<close> and
  \<^verbatim>\<open>release_branch\<close> is written. The key \<^verbatim>\<open>git_repo\<close> is seeded before the
  version is parsed.
\<close>

theorem malformed_release_fails:
  assumes "RELEASE_REGEXP_match r = None"
  shows "(\<exists>e. snd (FiniteStateMachine_init d (Some r) g first) = Inl e) \<and>
         (\<forall>k. k \<noteq> ''git_repo'' \<longrightarrow>
            fst (FiniteStateMachine_init d (Some r) g first) k = open_store d k) \<and>
         fst (FiniteStateMachine_init d (Some r) g first) ''git_repo'' =
           (if truthy (db_get (open_store d) ''git_repo'') \<or> g = None
            then open_store d ''git_repo'' else map_option VPath g)"
proof -
  from seed_config_cases [where d = "open_store d" and release = "Some r" and g = g and first = first]
    assms
  consider "seed_git_repo (open_store d) g = Inl TypeError"
      "FiniteStateMachine_init d (Some r) g first = (open_store d, Inl TypeError)"
    | d2 where "seed_git_repo (open_store d) g = Inr d2"
        "FiniteStateMachine_init d (Some r) g first = (d2, Inl AttributeError)"
    by (auto simp: FiniteStateMachine_init_def)
  then show ?thesis
  proof cases
    case 1
    with seed_git_repo_Inl [OF 1(1)] show ?thesis by simp
  next
    case 2
    from 2(1) have "truthy (db_get (open_store d) ''git_repo'') \<or> g \<noteq> None"
      by (auto simp: seed_git_repo_def split: if_splits option.splits)
    with 2 show ?thesis by (auto simp: seed_git_repo_apply [OF 2(1)])
  qed
qed

text \<open>
  The version \<^verbatim>\<open>3.10\<close> has no patch component; on an empty store construction
  fails and the three keys derived from the version stay absent.
\<close>

theorem malformed_release_fails_witness:
  "RELEASE_REGEXP_match ''3.10'' = None \<and>
   (\<exists>e. snd (FiniteStateMachine_init Map.empty (Some ''3.10'') (Some ''/repo'')
             (None :: release_task option)) = Inl e) \<and>
   fst (FiniteStateMachine_init Map.empty (Some ''3.10'') (Some ''/repo'')
          (None :: release_task option)) ''release'' = None \<and>
   fst (FiniteStateMachine_init Map.empty (Some ''3.10'') (Some ''/repo'')
          (None :: release_task option)) ''normalized_release'' = None \<and>
   fst (FiniteStateMachine_init Map.empty (Some ''3.10'') (Some ''/repo'')
          (None :: release_task option)) ''release_branch'' = None \<and>
   fst (FiniteStateMachine_init Map.empty (Some ''3.10'') (Some ''/repo'')
          (None :: release_task option)) ''git_repo'' = Some (VPath ''/repo'')"
proof -
  have m: "RELEASE_REGEXP_match ''3.10'' = None"
    by (simp add: RELEASE_REGEXP_match_def is_digit_def)
  from malformed_release_fails [OF m, of "Map.empty :: release_task store" "Some ''/repo''" None]
  show ?thesis using m by (simp add: open_store_def db_get_def)
qed

text \<open>
  Claim C2 as it is written fails at the same input: the error is the
  \<^verbatim>\<open>AttributeError\<close> of \<^verbatim>\<open>match.group\<close> on a failed match, not the
  \<^verbatim>\<open>ValueError\<close> of line 37, and the domain key \<^verbatim>\<open>git_repo\<close> has been seeded.
\<close>

theorem malformed_release_counterexample:
  "RELEASE_REGEXP_match ''3.10'' = None \<and>
   snd (FiniteStateMachine_init Map.empty (Some ''3.10'') (Some ''/repo'')
          (None :: release_task option)) = Inl AttributeError \<and>
   snd (FiniteStateMachine_init Map.empty (Some ''3.10'') (Some ''/repo'')
          (None :: release_task option)) \<noteq> Inl ValueError \<and>
   fst (FiniteStateMachine_init Map.empty (Some ''3.10'') (Some ''/repo'')
          (None :: release_task option)) ''git_repo'' = Some (VPath ''/repo'')"
  by (simp add: init_eval)

subsection \<open>C3: the history of a completed chain\<close>

text \<open>
  Claim C3, as amended. Let a chain of at least one task run to its terminal task with
  no error, the task bodies leaving the engine's keys alone. When \<^verbatim>\<open>finished = True\<close>
  is persisted, the engine's own \<^verbatim>\<open>completed_tasks\<close> is the list it started from
  followed by every task whose body returned, in execution order. The list is written
  to the store by the checkpoint that precedes the next task, not on the task's
  success: the persisted \<^verbatim>\<open>completed_tasks\<close> holds the same tasks except the
  terminal one, which the persisted \<^verbatim>\<open>last_checkpoint\<close> still names.
\<close>

theorem completed_tasks_persisted:
  assumes "keeps_engine_keys tasks" and "current_task s = Some t0"
    and "run tasks w s = Some c" and "at c = Returned"
  shows "\<exists>n. c = steps tasks n (enter w s) \<and>
           succeeded tasks n (enter w s) \<noteq> [] \<and>
           completed_tasks c = completed_tasks s @ succeeded tasks n (enter w s) \<and>
           db c ''completed_tasks'' =
             Some (VTasks (completed_tasks s @ butlast (succeeded tasks n (enter w s)))) \<and>
           db c ''last_checkpoint'' = Some (VTask (last (succeeded tasks n (enter w s)))) \<and>
           db c ''finished'' = Some (VBool True)"
proof -
  from assms(3) obtain n where n: "c = steps tasks n (enter w s)"
    using run_from_Some unfolding run_def by blast
  let ?S = "succeeded tasks n (enter w s)"
  have inv: "run_inv (enter w s) c"
    unfolding n by (rule run_inv_steps [OF assms(1)])
  with assms(2,4) have p: "progressed (enter w s) c" and f: "db c ''finished'' = Some (VBool True)"
    by (auto simp: run_inv_def pristine_def)
  have "completed_tasks c @ pending c = completed_tasks s @ ?S"
    using pending_steps [of tasks n "enter w s"] by (simp add: n pending_enter)
  with assms(4) have m: "completed_tasks c = completed_tasks s @ ?S"
    by (simp add: pending_def split: option.splits)
  with p have ne: "?S \<noteq> []"
    by (auto simp: progressed_def)
  from p m ne have "db c ''completed_tasks'' = Some (VTasks (completed_tasks s @ butlast ?S))"
    and "db c ''last_checkpoint'' = Some (VTask (last ?S))"
    by (simp_all add: progressed_def completed_pending_def butlast_append)
  with n ne m f show ?thesis by blast
qed

text \<open>The chain \<open>T1 \<rightarrow> T2 \<rightarrow> T3\<close>, with no failure, is such a run.\<close>

theorem completed_tasks_persisted_witness:
  "keeps_engine_keys scenario_tasks \<and> current_task scenario_fresh = Some T1 \<and>
   run scenario_tasks False scenario_fresh =
     Some (steps scenario_tasks 20 (enter False scenario_fresh)) \<and>
   at (steps scenario_tasks 20 (enter False scenario_fresh)) = Returned \<and>
   (\<exists>n. steps scenario_tasks 20 (enter False scenario_fresh) =
          steps scenario_tasks n (enter False scenario_fresh) \<and>
        succeeded scenario_tasks n (enter False scenario_fresh) \<noteq> [] \<and>
        completed_tasks (steps scenario_tasks 20 (enter False scenario_fresh)) =
          completed_tasks scenario_fresh @ succeeded scenario_tasks n (enter False scenario_fresh) \<and>
        db (steps scenario_tasks 20 (enter False scenario_fresh)) ''completed_tasks'' =
          Some (VTasks (completed_tasks scenario_fresh @
                        butlast (succeeded scenario_tasks n (enter False scenario_fresh)))) \<and>
        db (steps scenario_tasks 20 (enter False scenario_fresh)) ''last_checkpoint'' =
          Some (VTask (last (succeeded scenario_tasks n (enter False scenario_fresh)))) \<and>
        db (steps scenario_tasks 20 (enter False scenario_fresh)) ''finished'' = Some (VBool True))"
proof -
  have c: "current_task scenario_fresh = Some T1" by (simp add: scenario_fresh_def)
  have r: "at (steps scenario_tasks 20 (enter False scenario_fresh)) = Returned"
    by (simp add: eval_nat_numeral run_eval scenario_fresh_def scenario_tasks_def)
  from completed_tasks_persisted [OF keeps_scenario c scenario_completes r]
    keeps_scenario c scenario_completes r
  show ?thesis by blast
qed

text \<open>
  Claim C3 as it is written fails on that chain: when the run has returned and
  \<^verbatim>\<open>finished\<close> is \<^verbatim>\<open>True\<close>, the engine holds \<open>[T1, T2, T3]\<close> and the store holds
  \<open>[T1, T2]\<close>.
\<close>

theorem scenario_persisted_counterexample:
  "run scenario_tasks False scenario_fresh =
     Some (steps scenario_tasks 20 (enter False scenario_fresh)) \<and>
   at (steps scenario_tasks 20 (enter False scenario_fresh)) = Returned \<and>
   db (steps scenario_tasks 20 (enter False scenario_fresh)) ''finished'' = Some (VBool True) \<and>
   completed_tasks (steps scenario_tasks 20 (enter False scenario_fresh)) = [T1, T2, T3] \<and>
   db (steps scenario_tasks 20 (enter False scenario_fresh)) ''completed_tasks'' =
     Some (VTasks [T1, T2]) \<and>
   db (steps scenario_tasks 20 (enter False scenario_fresh)) ''completed_tasks'' \<noteq>
     Some (VTasks [T1, T2, T3])"
  by (simp add: scenario_completes)
     (simp add: eval_nat_numeral run_eval scenario_fresh_def scenario_tasks_def)

subsection \<open>C4: a task that raises\<close>

text \<open>
  Claim C4. Take any point of a run at which the body of the current task \<open>t\<close> is about
  to run, and let the body raise \<open>e\<close> (the task bodies leaving the engine's keys alone).
  Then \<^verbatim>\<open>run\<close> ends there and raises that same \<open>e\<close>; in the store the body leaves,
  \<^verbatim>\<open>last_checkpoint\<close> is \<open>t\<close>, \<^verbatim>\<open>completed_tasks\<close> is the engine's list, which is
  the list the run started from followed by the tasks whose body has returned (the
  failing execution is not recorded), and \<^verbatim>\<open>finished\<close> is what it was when the run
  began: \<^verbatim>\<open>False\<close>, or absent after a reset, as construction leaves it. When the chain
  never comes back to a task and the history lies before the starting task, \<open>t\<close> is
  absent from that list.
\<close>

theorem task_failure_propagates:
  assumes "keeps_engine_keys tasks"
    and "c = steps tasks n (enter w s)" and "at c = Run_task" and "current_task c = Some t"
    and "task_run (tasks t) (world c) (db c) = (Inl e, w', d')"
  shows "run tasks w s = Some (c\<lparr>db := d', world := w', at := Raised e\<rparr>) \<and>
         d' ''last_checkpoint'' = Some (VTask t) \<and>
         d' ''completed_tasks'' = Some (VTasks (completed_tasks c)) \<and>
         completed_tasks c = completed_tasks s @ succeeded tasks n (enter w s) \<and>
         d' ''finished'' = db s ''finished'' \<and>
         (ascending tasks rank \<and> history_before rank s \<longrightarrow> t \<notin> set (completed_tasks c))"
proof -
  let ?c' = "c\<lparr>db := d', world := w', at := Raised e\<rparr>"
  have step: "run_step tasks c = ?c'"
    using run_step_Run_task [where tasks = tasks, OF assms(3,4,5)] by simp
  then have "steps tasks (Suc n) (enter w s) = ?c'"
    unfolding steps_Suc_end assms(2) [symmetric] .
  moreover have "halted (at ?c')" by simp
  ultimately have r: "run tasks w s = Some ?c'"
    unfolding run_def using run_from_steps [of tasks "Suc n" "enter w s"] by simp
  have "run_inv (enter w s) c"
    unfolding assms(2) by (rule run_inv_steps [OF assms(1)])
  with assms(3,4) have cp: "db c ''last_checkpoint'' = Some (VTask t)"
    "db c ''completed_tasks'' = Some (VTasks (completed_tasks c))"
    by (simp_all add: run_inv_def checkpointed_def)
  have "db c ''finished'' = db s ''finished''"
    using finished_steps [OF assms(1), of n "enter w s"] assms(2,3) by simp
  with cp keeps_engine_keysD [OF assms(1,5)]
  have d: "d' ''last_checkpoint'' = Some (VTask t)"
    "d' ''completed_tasks'' = Some (VTasks (completed_tasks c))"
    "d' ''finished'' = db s ''finished''"
    by simp_all
  have "pending c = []"
    using assms(3,4) by (simp add: pending_def)
  then have m: "completed_tasks c = completed_tasks s @ succeeded tasks n (enter w s)"
    using pending_steps [of tasks n "enter w s"] by (simp add: assms(2) pending_enter)
  have "t \<notin> set (completed_tasks c)" if "ascending tasks rank" "history_before rank s"
  proof -
    have "rank_inv rank c"
      unfolding assms(2) by (rule rank_inv_steps [OF that])
    with assms(3,4) show ?thesis
      by (auto simp: rank_inv_def)
  qed
  with r d m show ?thesis by blast
qed

text \<open>
  In the chain \<open>T1 \<rightarrow> T2 \<rightarrow> T3\<close> with \<open>T2\<close> broken, the ninth statement is the body
  of \<open>T2\<close>: the run raises its error, the checkpoint is \<open>T2\<close> and the stored list is
  \<open>[T1]\<close>.
\<close>

theorem task_failure_propagates_witness:
  "keeps_engine_keys scenario_tasks \<and>
   ascending scenario_tasks scenario_rank \<and> history_before scenario_rank scenario_fresh \<and>
   at (steps scenario_tasks 9 (enter True scenario_fresh)) = Run_task \<and>
   current_task (steps scenario_tasks 9 (enter True scenario_fresh)) = Some T2 \<and>
   task_run (scenario_tasks T2) (world (steps scenario_tasks 9 (enter True scenario_fresh)))
       (db (steps scenario_tasks 9 (enter True scenario_fresh))) =
     (Inl ''T2 failed'', True, db (steps scenario_tasks 9 (enter True scenario_fresh))) \<and>
   run scenario_tasks True scenario_fresh =
     Some ((steps scenario_tasks 9 (enter True scenario_fresh))
             \<lparr>db := db (steps scenario_tasks 9 (enter True scenario_fresh)),
              world := True, at := Raised ''T2 failed''\<rparr>) \<and>
   db (steps scenario_tasks 9 (enter True scenario_fresh)) ''last_checkpoint'' = Some (VTask T2) \<and>
   db (steps scenario_tasks 9 (enter True scenario_fresh)) ''completed_tasks'' =
     Some (VTasks (completed_tasks (steps scenario_tasks 9 (enter True scenario_fresh)))) \<and>
   completed_tasks (steps scenario_tasks 9 (enter True scenario_fresh)) = [T1] \<and>
   db (steps scenario_tasks 9 (enter True scenario_fresh)) ''finished'' =
     db scenario_fresh ''finished'' \<and>
   db scenario_fresh ''finished'' = Some (VBool False) \<and>
   T2 \<notin> set (completed_tasks (steps scenario_tasks 9 (enter True scenario_fresh)))"
proof -
  let ?c = "steps scenario_tasks 9 (enter True scenario_fresh)"
  have a: "at ?c = Run_task" and t: "current_task ?c = Some T2" and w: "world ?c = True"
    and m: "completed_tasks ?c = [T1]"
    by (simp_all add: scenario_T2_point)
  have "task_run (scenario_tasks T2) True (db ?c) = (Inl ''T2 failed'', True, db ?c)"
    by (simp add: scenario_tasks_def)
  then have r: "task_run (scenario_tasks T2) (world ?c) (db ?c) = (Inl ''T2 failed'', True, db ?c)"
    by (simp only: w)
  have f: "db scenario_fresh ''finished'' = Some (VBool False)"
    by (simp add: scenario_fresh_def)
  from task_failure_propagates [OF keeps_scenario refl a t r, of scenario_rank]
    keeps_scenario ascending_scenario history_scenario a t r f m
  show ?thesis by blast
qed

subsection \<open>C5: where the engine starts\<close>

text \<open>
  Claim C5, as amended. Construction sets the current-task pointer to the
  \<^verbatim>\<open>first_state\<close> of the caller, whatever the store holds. It is
  \<^verbatim>\<open>load_checkpoint\<close>, called after construction, that sets the pointer to the
  checkpointed TaskRef when the store held a resumable checkpoint (\<^verbatim>\<open>finished\<close>
  falsy and \<^verbatim>\<open>last_checkpoint\<close> a TaskRef) and to \<^verbatim>\<open>None\<close> otherwise; the entry
  script then puts its starting TaskRef in place of \<^verbatim>\<open>None\<close>.
\<close>

theorem resume_point:
  assumes "snd (FiniteStateMachine_init d release g first) = Inr s"
  shows "current_task s = first \<and>
         current_task (load_checkpoint s) =
           (if truthy (db_get d ''finished'') then None
            else as_task (db_get d ''last_checkpoint'')) \<and>
         current_task (resume_or_start s start) =
           (case current_task (load_checkpoint s) of None \<Rightarrow> Some start | Some t \<Rightarrow> Some t)"
proof -
  note i = init_Inr [OF assms]
  from init_success [OF i] have s: "current_task s = first"
    by auto
  have "''last_checkpoint'' \<notin> set seeded_keys" by (simp add: seeded_keys_def)
  then have "fst (FiniteStateMachine_init d release g first) ''last_checkpoint'' =
      open_store d ''last_checkpoint''"
    by (intro init_keeps) simp
  with i have "db s ''last_checkpoint'' = open_store d ''last_checkpoint''" by simp
  then have "db_get (db s) ''last_checkpoint'' =
      (if truthy (db_get d ''finished'') then VNone else db_get d ''last_checkpoint'')"
    by (simp add: db_get_def open_store_def)
  then have l: "current_task (load_checkpoint s) =
      (if truthy (db_get d ''finished'') then None else as_task (db_get d ''last_checkpoint''))"
    by (simp add: load_checkpoint_def)
  have "current_task (resume_or_start s start) =
      (case current_task (load_checkpoint s) of None \<Rightarrow> Some start | Some t \<Rightarrow> Some t)"
    by (auto simp: resume_or_start_def Let_def)
  with s l show ?thesis by simp
qed

text \<open>
  A store with \<^verbatim>\<open>finished = False\<close> and the checkpoint \<^verbatim>\<open>check_make\<close>: after
  construction with no \<^verbatim>\<open>first_state\<close> the pointer is \<^verbatim>\<open>None\<close>, and loading the
  checkpoint makes it \<^verbatim>\<open>check_make\<close>.
\<close>

theorem resume_point_witness:
  "\<exists>s. snd (FiniteStateMachine_init
              [''finished'' \<mapsto> VBool False, ''last_checkpoint'' \<mapsto> VTask check_make]
              (Some ''3.10.1a2'') (Some ''/repo'') None) = Inr s \<and>
        current_task s = None \<and>
        current_task (load_checkpoint s) = Some check_make \<and>
        current_task (resume_or_start s check_git) = Some check_make"
proof -
  let ?d = "[''finished'' \<mapsto> VBool False, ''last_checkpoint'' \<mapsto> VTask check_make]"
  have "\<exists>s. snd (FiniteStateMachine_init ?d (Some ''3.10.1a2'') (Some ''/repo'') None) = Inr s"
    by (simp add: init_eval)
  then obtain s where s: "snd (FiniteStateMachine_init ?d (Some ''3.10.1a2'') (Some ''/repo'') None) = Inr s"
    by blast
  from resume_point [OF s, of check_git] s show ?thesis
    by (intro exI [of _ s]) (simp add: db_get_def)
qed

text \<open>
  Claim C5 as it is written fails on the same store: constructed with
  \<^verbatim>\<open>first_state = check_git\<close>, the engine points at \<^verbatim>\<open>check_git\<close>, not at the
  checkpoint \<^verbatim>\<open>check_make\<close>.
\<close>

theorem construction_ignores_checkpoint:
  "map_sum id current_task
     (snd (FiniteStateMachine_init
             [''finished'' \<mapsto> VBool False, ''last_checkpoint'' \<mapsto> VTask check_make]
             (Some ''3.10.1a2'') (Some ''/repo'') (Some check_git))) = Inr (Some check_git)"
  by (simp add: init_eval)

subsection \<open>C6: opening the store\<close>

text \<open>
  Claim C6. When \<^verbatim>\<open>finished\<close> is true, construction reopens the store empty: what it
  leaves is what seeding an empty store gives, every key outside the four seeded ones
  is absent (\<^verbatim>\<open>completed_tasks\<close> and \<^verbatim>\<open>last_checkpoint\<close> among them), and the engine
  starts with no completed task at the \<^verbatim>\<open>first_state\<close> of the caller. When the flag
  is absent it is set to \<^verbatim>\<open>False\<close>. When it is \<^verbatim>\<open>False\<close>, opening changes nothing,
  construction keeps every key that is not a seeded key or that holds a value, and the
  engine takes the stored list of completed tasks.
\<close>

theorem completion_finality:
  "(truthy (db_get d ''finished'') \<longrightarrow>
      open_store d = Map.empty \<and>
      FiniteStateMachine_init d release g first = seed_config Map.empty release g first \<and>
      (\<forall>k. k \<notin> set seeded_keys \<longrightarrow> fst (FiniteStateMachine_init d release g first) k = None) \<and>
      (\<forall>s. snd (FiniteStateMachine_init d release g first) = Inr s \<longrightarrow>
         completed_tasks s = [] \<and> current_task s = first)) \<and>
   (d ''finished'' = None \<longrightarrow>
      fst (FiniteStateMachine_init d release g first) ''finished'' = Some (VBool False)) \<and>
   (d ''finished'' = Some (VBool False) \<longrightarrow>
      open_store d = d \<and>
      (\<forall>k. k \<notin> set seeded_keys \<or> truthy (db_get d k) \<longrightarrow>
         fst (FiniteStateMachine_init d release g first) k = d k) \<and>
      (\<forall>s. snd (FiniteStateMachine_init d release g first) = Inr s \<longrightarrow>
         completed_tasks s = (case d ''completed_tasks'' of None \<Rightarrow> [] | Some v \<Rightarrow> as_tasks v)))"
proof (intro conjI impI allI)
  assume t: "truthy (db_get d ''finished'')"
  then show e: "open_store d = Map.empty" by (simp add: open_store_def)
  then show "FiniteStateMachine_init d release g first = seed_config Map.empty release g first"
    by (simp add: FiniteStateMachine_init_def)
  show "fst (FiniteStateMachine_init d release g first) k = None" if "k \<notin> set seeded_keys" for k
    using init_keeps [of k d release g first] that e by simp
  show "completed_tasks s = []" "current_task s = first"
    if "snd (FiniteStateMachine_init d release g first) = Inr s" for s
    using init_success [OF init_Inr [OF that]] e by auto
next
  assume n: "d ''finished'' = None"
  have "''finished'' \<notin> set seeded_keys" by (simp add: seeded_keys_def)
  then have "fst (FiniteStateMachine_init d release g first) ''finished'' = open_store d ''finished''"
    by (intro init_keeps) simp
  with n show "fst (FiniteStateMachine_init d release g first) ''finished'' = Some (VBool False)"
    by (simp add: open_store_def db_get_def)
next
  assume f: "d ''finished'' = Some (VBool False)"
  then show o: "open_store d = d"
    by (auto simp: open_store_def db_get_def)
  show "fst (FiniteStateMachine_init d release g first) k = d k"
    if "k \<notin> set seeded_keys \<or> truthy (db_get d k)" for k
    using init_keeps [of k d release g first] that o by simp
  show "completed_tasks s = (case d ''completed_tasks'' of None \<Rightarrow> [] | Some v \<Rightarrow> as_tasks v)"
    if "snd (FiniteStateMachine_init d release g first) = Inr s" for s
    using init_success [OF init_Inr [OF that]] o by auto
qed

text \<open>One store for each of the three cases.\<close>

theorem completion_finality_witness:
  "truthy (db_get [''finished'' \<mapsto> VBool True, ''completed_tasks'' \<mapsto> VTasks [check_git],
                   ''last_checkpoint'' \<mapsto> VTask check_make, ''gpg_key'' \<mapsto> VStr ''K''] ''finished'') \<and>
   open_store [''finished'' \<mapsto> VBool True, ''completed_tasks'' \<mapsto> VTasks [check_git],
               ''last_checkpoint'' \<mapsto> VTask check_make, ''gpg_key'' \<mapsto> VStr ''K''] = Map.empty \<and>
   fst (FiniteStateMachine_init
          [''finished'' \<mapsto> VBool True, ''completed_tasks'' \<mapsto> VTasks [check_git],
           ''last_checkpoint'' \<mapsto> VTask check_make, ''gpg_key'' \<mapsto> VStr ''K'']
          (Some ''3.10.1'') (Some ''/repo'') (Some check_git)) ''gpg_key'' = None \<and>
   fst (FiniteStateMachine_init
          [''finished'' \<mapsto> VBool True, ''completed_tasks'' \<mapsto> VTasks [check_git],
           ''last_checkpoint'' \<mapsto> VTask check_make, ''gpg_key'' \<mapsto> VStr ''K'']
          (Some ''3.10.1'') (Some ''/repo'') (Some check_git)) ''last_checkpoint'' = None \<and>
   (Map.empty :: release_task store) ''finished'' = None \<and>
   fst (FiniteStateMachine_init (Map.empty :: release_task store)
          (Some ''3.10.1'') (Some ''/repo'') (Some check_git)) ''finished'' = Some (VBool False) \<and>
   [''finished'' \<mapsto> VBool False, ''last_checkpoint'' \<mapsto> VTask check_make,
    ''release'' \<mapsto> VStr ''3.9.0''] ''finished'' = Some (VBool False) \<and>
   fst (FiniteStateMachine_init
          [''finished'' \<mapsto> VBool False, ''last_checkpoint'' \<mapsto> VTask check_make,
           ''release'' \<mapsto> VStr ''3.9.0'']
          (Some ''3.10.1'') (Some ''/repo'') (Some check_git)) ''last_checkpoint'' =
     Some (VTask check_make) \<and>
   fst (FiniteStateMachine_init
          [''finished'' \<mapsto> VBool False, ''last_checkpoint'' \<mapsto> VTask check_make,
           ''release'' \<mapsto> VStr ''3.9.0'']
          (Some ''3.10.1'') (Some ''/repo'') (Some check_git)) ''release'' = Some (VStr ''3.9.0'')"
proof -
  let ?d1 = "[''finished'' \<mapsto> VBool True, ''completed_tasks'' \<mapsto> VTasks [check_git],
              ''last_checkpoint'' \<mapsto> VTask check_make, ''gpg_key'' \<mapsto> VStr ''K'']"
  let ?d3 = "[''finished'' \<mapsto> VBool False, ''last_checkpoint'' \<mapsto> VTask check_make,
              ''release'' \<mapsto> VStr ''3.9.0'']"
  let ?r = "Some ''3.10.1''" and ?g = "Some ''/repo''" and ?f = "Some check_git"
  have t: "truthy (db_get ?d1 ''finished'')" by (simp add: db_get_def)
  from completion_finality [of ?d1 ?r ?g ?f] t
  have a: "open_store ?d1 = Map.empty"
    and b: "\<forall>k. k \<notin> set seeded_keys \<longrightarrow> fst (FiniteStateMachine_init ?d1 ?r ?g ?f) k = None"
    by blast+
  have b1: "fst (FiniteStateMachine_init ?d1 ?r ?g ?f) ''gpg_key'' = None"
    using b [rule_format, of "''gpg_key''"] by (simp add: seeded_keys_def)
  have b2: "fst (FiniteStateMachine_init ?d1 ?r ?g ?f) ''last_checkpoint'' = None"
    using b [rule_format, of "''last_checkpoint''"] by (simp add: seeded_keys_def)
  have n: "(Map.empty :: release_task store) ''finished'' = None" by simp
  from completion_finality [of "Map.empty :: release_task store" ?r ?g ?f] n
  have c: "fst (FiniteStateMachine_init (Map.empty :: release_task store) ?r ?g ?f) ''finished'' =
      Some (VBool False)"
    by blast
  have f: "?d3 ''finished'' = Some (VBool False)" by simp
  from completion_finality [of ?d3 ?r ?g ?f] f
  have d: "\<forall>k. k \<notin> set seeded_keys \<or> truthy (db_get ?d3 k) \<longrightarrow>
      fst (FiniteStateMachine_init ?d3 ?r ?g ?f) k = ?d3 k"
    by blast
  have d1: "fst (FiniteStateMachine_init ?d3 ?r ?g ?f) ''last_checkpoint'' = Some (VTask check_make)"
    using d [rule_format, of "''last_checkpoint''"] by (simp add: seeded_keys_def)
  have d2: "fst (FiniteStateMachine_init ?d3 ?r ?g ?f) ''release'' = Some (VStr ''3.9.0'')"
    using d [rule_format, of "''release''"] by (simp add: db_get_def)
  from t a b1 b2 n c f d1 d2 show ?thesis by blast
qed

subsection \<open>C7: the checkpoint at every point of a run\<close>

text \<open>
  Claim C7, as amended. At every point of a run (the task bodies leaving the engine's
  keys alone) one of three things holds.
  \<^item> No checkpoint of this run has been written: \<^verbatim>\<open>last_checkpoint\<close> is what the
    store held when the run began (\<^verbatim>\<open>None\<close> on a fresh store) and no task has
    completed.
  \<^item> The checkpoint has been written and the body of the current task has not been
    appended: \<^verbatim>\<open>last_checkpoint\<close> is the current task, the persisted list is the
    engine's list, and the task is not in it when the chain never comes back to a
    task.
  \<^item> The task has been appended: \<^verbatim>\<open>last_checkpoint\<close> still names it, the last entry
    of the engine's \<^verbatim>\<open>completed_tasks\<close>, until the second write of the next
    checkpoint, and for good once \<^verbatim>\<open>finished\<close> is \<^verbatim>\<open>True\<close>.
  So \<^verbatim>\<open>last_checkpoint\<close> is \<^verbatim>\<open>None\<close> only before the first checkpoint, and it is
  never reset.
\<close>

theorem last_checkpoint_points:
  assumes "keeps_engine_keys tasks" and "c = steps tasks n (enter w s)"
  shows "(at c \<in> {Loop_test, Ckpt_completed, Ckpt_last, Set_finished, Returned} \<and>
          db c ''last_checkpoint'' = db s ''last_checkpoint'' \<and>
          completed_tasks c = completed_tasks s) \<or>
         ((at c = Run_task \<or> at c = Append_task \<or> (\<exists>e. at c = Raised e)) \<and>
          (\<exists>t. current_task c = Some t \<and>
               db c ''last_checkpoint'' = Some (VTask t) \<and>
               db c ''completed_tasks'' = Some (VTasks (completed_tasks c)) \<and>
               (ascending tasks rank \<and> history_before rank s \<longrightarrow> t \<notin> set (completed_tasks c)))) \<or>
         (at c \<in> {Next_task, Loop_test, Ckpt_completed, Ckpt_last, Set_finished, Returned} \<and>
          length (completed_tasks s) < length (completed_tasks c) \<and>
          db c ''last_checkpoint'' = Some (VTask (last (completed_tasks c))))"
proof -
  have inv: "run_inv (enter w s) c"
    unfolding assms(2) by (rule run_inv_steps [OF assms(1)])
  have absent: "t \<notin> set (completed_tasks c)"
    if "ascending tasks rank" "history_before rank s" "current_task c = Some t" "at c \<noteq> Next_task" for t
  proof -
    have "rank_inv rank c"
      unfolding assms(2) by (rule rank_inv_steps [OF that(1,2)])
    with that(3,4) show ?thesis
      by (auto simp: rank_inv_def)
  qed
  show ?thesis
  proof (cases "at c")
    case Run_task
    with inv absent show ?thesis by (auto simp: run_inv_def checkpointed_def)
  next
    case Append_task
    with inv absent show ?thesis by (auto simp: run_inv_def checkpointed_def)
  next
    case (Raised e)
    with inv absent show ?thesis by (auto simp: run_inv_def checkpointed_def)
  qed (use inv in \<open>auto simp: run_inv_def pristine_def progressed_def completed_pending_def\<close>)
qed

text \<open>The second case, at the body of \<open>T2\<close> in the chain \<open>T1 \<rightarrow> T2 \<rightarrow> T3\<close>.\<close>

theorem last_checkpoint_points_witness:
  "keeps_engine_keys scenario_tasks \<and>
   ascending scenario_tasks scenario_rank \<and> history_before scenario_rank scenario_fresh \<and>
   at (steps scenario_tasks 9 (enter True scenario_fresh)) = Run_task \<and>
   current_task (steps scenario_tasks 9 (enter True scenario_fresh)) = Some T2 \<and>
   db (steps scenario_tasks 9 (enter True scenario_fresh)) ''last_checkpoint'' = Some (VTask T2) \<and>
   db (steps scenario_tasks 9 (enter True scenario_fresh)) ''completed_tasks'' =
     Some (VTasks (completed_tasks (steps scenario_tasks 9 (enter True scenario_fresh)))) \<and>
   T2 \<notin> set (completed_tasks (steps scenario_tasks 9 (enter True scenario_fresh)))"
proof -
  let ?c = "steps scenario_tasks 9 (enter True scenario_fresh)"
  have a: "at ?c = Run_task" and t: "current_task ?c = Some T2"
    by (simp_all add: scenario_T2_point)
  have n: "at ?c \<notin> {Loop_test, Ckpt_completed, Ckpt_last, Set_finished, Returned}"
    "at ?c \<notin> {Next_task, Loop_test, Ckpt_completed, Ckpt_last, Set_finished, Returned}"
    by (simp_all only: a) simp_all
  from last_checkpoint_points [OF keeps_scenario refl, of 9 True scenario_fresh scenario_rank] n
  have "\<exists>t. current_task ?c = Some t \<and>
               db ?c ''last_checkpoint'' = Some (VTask t) \<and>
               db ?c ''completed_tasks'' = Some (VTasks (completed_tasks ?c)) \<and>
               (ascending scenario_tasks scenario_rank \<and> history_before scenario_rank scenario_fresh
                  \<longrightarrow> t \<notin> set (completed_tasks ?c))"
    by blast
  with t keeps_scenario ascending_scenario history_scenario a
  show ?thesis by auto
qed

text \<open>
  Claim C7 as it is written fails in that chain. After eight statements the first write
  of the second checkpoint is done: \<^verbatim>\<open>last_checkpoint\<close> is \<open>T1\<close>, which is in the
  engine's list and in the persisted list, and \<^verbatim>\<open>finished\<close> is \<^verbatim>\<open>False\<close>. When the
  run has returned, \<^verbatim>\<open>finished\<close> is \<^verbatim>\<open>True\<close> and \<^verbatim>\<open>last_checkpoint\<close> is \<open>T3\<close>,
  a completed task, not \<^verbatim>\<open>None\<close>.
\<close>

theorem last_checkpoint_counterexample:
  "at (steps scenario_tasks 8 (enter False scenario_fresh)) = Ckpt_last \<and>
   db (steps scenario_tasks 8 (enter False scenario_fresh)) ''last_checkpoint'' = Some (VTask T1) \<and>
   completed_tasks (steps scenario_tasks 8 (enter False scenario_fresh)) = [T1] \<and>
   db (steps scenario_tasks 8 (enter False scenario_fresh)) ''completed_tasks'' = Some (VTasks [T1]) \<and>
   db (steps scenario_tasks 8 (enter False scenario_fresh)) ''finished'' = Some (VBool False) \<and>
   at (steps scenario_tasks 20 (enter False scenario_fresh)) = Returned \<and>
   db (steps scenario_tasks 20 (enter False scenario_fresh)) ''finished'' = Some (VBool True) \<and>
   db (steps scenario_tasks 20 (enter False scenario_fresh)) ''last_checkpoint'' = Some (VTask T3) \<and>
   completed_tasks (steps scenario_tasks 20 (enter False scenario_fresh)) = [T1, T2, T3]"
  by (simp add: eval_nat_numeral run_eval scenario_fresh_def scenario_tasks_def)

subsection \<open>C8: seeding twice\<close>

text \<open>
  Claim C8. On a store that is not finished, a seeded key (\<^verbatim>\<open>git_repo\<close>,
  \<^verbatim>\<open>release\<close>, \<^verbatim>\<open>normalized_release\<close>, \<^verbatim>\<open>release_branch\<close>) that holds a value
  keeps it through construction. And after a construction that succeeds every seeded
  key holds a value, which a further construction, whatever its arguments, leaves as
  it is.
\<close>

theorem seeding_idempotent:
  "(\<not> truthy (db_get d ''finished'') \<and> k \<in> set seeded_keys \<and> truthy (db_get d k) \<longrightarrow>
      fst (FiniteStateMachine_init d release g first) k = d k) \<and>
   (snd (FiniteStateMachine_init d release g first) = Inr s \<longrightarrow>
      (\<forall>k\<in>set seeded_keys.
         truthy (db_get (db s) k) \<and>
         fst (FiniteStateMachine_init (db s) release' g' first') k = db s k))"
proof (intro conjI impI ballI)
  assume a: "\<not> truthy (db_get d ''finished'') \<and> k \<in> set seeded_keys \<and> truthy (db_get d k)"
  then have "k \<noteq> ''finished''" by (auto simp: seeded_keys_def)
  with a have o: "open_store d k = d k" by (simp add: open_store_other)
  with a have "truthy (db_get (open_store d) k)" by (simp add: db_get_def)
  from init_keeps [of k d release g first] this o
  show "fst (FiniteStateMachine_init d release g first) k = d k" by simp
next
  fix k
  assume s: "snd (FiniteStateMachine_init d release g first) = Inr s" and k: "k \<in> set seeded_keys"
  note i = init_Inr [OF s]
  show t: "truthy (db_get (db s) k)" by (rule init_success_truthy [OF i k])
  from k have "k \<noteq> ''finished''" by (auto simp: seeded_keys_def)
  with init_success_unfinished [OF i] have o: "open_store (db s) k = db s k"
    by (simp add: open_store_other)
  with t have "truthy (db_get (open_store (db s)) k)" by (simp add: db_get_def)
  from init_keeps [of k "db s" release' g' first'] this o
  show "fst (FiniteStateMachine_init (db s) release' g' first') k = db s k" by simp
qed

text \<open>
  A stored release \<^verbatim>\<open>3.9.0\<close> survives construction with \<^verbatim>\<open>3.10.1a2\<close>; the
  release seeded by a first construction survives a second one with other arguments.
\<close>

theorem seeding_idempotent_witness:
  "\<not> truthy (db_get [''finished'' \<mapsto> VBool False, ''release'' \<mapsto> VStr ''3.9.0''] ''finished'') \<and>
   ''release'' \<in> set seeded_keys \<and>
   truthy (db_get [''finished'' \<mapsto> VBool False, ''release'' \<mapsto> VStr ''3.9.0''] ''release'') \<and>
   fst (FiniteStateMachine_init [''finished'' \<mapsto> VBool False, ''release'' \<mapsto> VStr ''3.9.0'']
          (Some ''3.10.1a2'') (Some ''/repo'') (Some check_git)) ''release'' = Some (VStr ''3.9.0'') \<and>
   (\<exists>s. snd (FiniteStateMachine_init (Map.empty :: release_task store)
               (Some ''3.10.1'') (Some ''/repo'') (Some check_git)) = Inr s \<and>
        truthy (db_get (db s) ''release'') \<and>
        fst (FiniteStateMachine_init (db s) (Some ''3.11.0'') (Some ''/other'') (Some check_make))
          ''release'' = db s ''release'')"
proof -
  let ?d = "[''finished'' \<mapsto> VBool False, ''release'' \<mapsto> VStr ''3.9.0'']"
  let ?r = "Some ''3.10.1a2''" and ?g = "Some ''/repo''" and ?f = "Some check_git"
  have h: "\<not> truthy (db_get ?d ''finished'')" "''release'' \<in> set seeded_keys"
    "truthy (db_get ?d ''release'')"
    by (simp_all add: db_get_def seeded_keys_def)
  have p: "?d ''release'' = Some (VStr ''3.9.0'')" by simp
  from seeding_idempotent [of ?d "''release''" ?r ?g ?f] h
  have a: "fst (FiniteStateMachine_init ?d ?r ?g ?f) ''release'' = ?d ''release''"
    by blast
  have "\<exists>s. snd (FiniteStateMachine_init (Map.empty :: release_task store)
               (Some ''3.10.1'') ?g ?f) = Inr s"
    by (simp add: init_eval)
  then obtain s where s: "snd (FiniteStateMachine_init (Map.empty :: release_task store)
               (Some ''3.10.1'') ?g ?f) = Inr s"
    by blast
  from seeding_idempotent [of "Map.empty :: release_task store" "''release''" "Some ''3.10.1''" ?g ?f s
      "Some ''3.11.0''" "Some ''/other''" "Some check_make"] s h(2)
  have b: "truthy (db_get (db s) ''release'') \<and>
        fst (FiniteStateMachine_init (db s) (Some ''3.11.0'') (Some ''/other'') (Some check_make))
          ''release'' = db s ''release''"
    by blast
  from h a [unfolded p] s b show ?thesis by blast
qed

subsection \<open>C9: the normalized release\<close>

text \<open>
  Claim C9. Let the version be \<^verbatim>\<open><major>.<minor>.<patch>\<close>, three non-empty runs
  of digits, followed by a suffix that does not start with a digit (a digit there
  belongs to the patch). On a store that holds no normalized release (or is finished,
  hence reset) construction succeeds and stores \<^verbatim>\<open><major>.<minor>.<patch>\<close>, the
  suffix dropped, under \<^verbatim>\<open>normalized_release\<close>.
\<close>

theorem normalized_release_derived:
  assumes "ma \<noteq> []" "\<forall>c\<in>set ma. is_digit c"
    and "mi \<noteq> []" "\<forall>c\<in>set mi. is_digit c"
    and "pa \<noteq> []" "\<forall>c\<in>set pa. is_digit c"
    and "suffix = [] \<or> \<not> is_digit (hd suffix)"
    and "truthy (db_get d ''finished'') \<or> \<not> truthy (db_get d ''normalized_release'')"
  shows "\<exists>s. FiniteStateMachine_init d (Some (ma @ ''.'' @ mi @ ''.'' @ pa @ suffix)) (Some g) first
             = (db s, Inr s) \<and>
           db s ''normalized_release'' = Some (VStr (ma @ ''.'' @ mi @ ''.'' @ pa))"
proof -
  obtain e where m: "RELEASE_REGEXP_match (ma @ ''.'' @ mi @ ''.'' @ pa @ suffix) =
           Some \<lparr>major = ma, minor = mi, patch = pa, extra = e\<rparr>"
    using match_version [OF assms(1-7)] by blast
  obtain d2 where d2: "seed_git_repo (open_store d) (Some g) = Inr d2"
    by (cases "truthy (db_get (open_store d) ''git_repo'')") (auto simp: seed_git_repo_def)
  have "\<not> truthy (db_get (open_store d) ''normalized_release'')"
    using assms(8) by (auto simp: open_store_def db_get_def)
  then have n: "\<not> truthy (db_get d2 ''normalized_release'')"
    using seed_git_repo_apply [OF d2, of "''normalized_release''"] by (simp add: db_get_def)
  show ?thesis
    using m d2 n
    by (simp add: FiniteStateMachine_init_def seed_config_def Let_def seed_release_apply)
qed

text \<open>The version \<^verbatim>\<open>3.10.1a2\<close> on an empty store is normalized to \<^verbatim>\<open>3.10.1\<close>.\<close>

theorem normalized_release_derived_witness:
  "\<exists>s. FiniteStateMachine_init (Map.empty :: release_task store) (Some ''3.10.1a2'')
          (Some ''/repo'') None = (db s, Inr s) \<and>
        db s ''normalized_release'' = Some (VStr ''3.10.1'')"
  using normalized_release_derived [of "''3''" "''10''" "''1''" "''a2''"
      "Map.empty :: release_task store" "''/repo''" None]
  by (simp add: is_digit_def db_get_def)

subsection \<open>C10: the tool checks\<close>

text \<open>
  Claim C10. The body of each of \<^verbatim>\<open>check_git\<close>, \<^verbatim>\<open>check_make\<close>,
  \<^verbatim>\<open>check_blurb\<close> and \<^verbatim>\<open>check_autoconf\<close> returns the result of the lookup of its
  tool, whatever the lookup finds, and never raises; each has a successor; and from
  the loop test one turn of the loop (six statements) checkpoints the task, appends it
  to \<^verbatim>\<open>completed_tasks\<close> and moves the pointer to the successor, back at the loop
  test.
\<close>

theorem tool_checks_never_halt:
  assumes "t \<in> {check_git, check_make, check_blurb, check_autoconf}"
    and "at c = Loop_test" and "current_task c = Some t"
  shows "(\<exists>tool. \<forall>w d. task_run (release_tasks which body t) w d =
            (Inr (which_val (which w tool)), w, d)) \<and>
         release_next t \<noteq> None \<and>
         steps (release_tasks which body) 6 c =
           c\<lparr>db := checkpoint_last (checkpoint_completed (db c) (completed_tasks c)) (Some t),
             completed_tasks := completed_tasks c @ [t],
             current_task := release_next t\<rparr>"
proof -
  have r: "\<exists>tool. \<forall>w d. task_run (release_tasks which body t) w d =
            (Inr (which_val (which w tool)), w, d)"
    using assms(1) by (auto simp: release_tasks_def release_run_def check_tool_def)
  then obtain tool where tool: "\<And>w d. task_run (release_tasks which body t) w d =
            (Inr (which_val (which w tool)), w, d)"
    by blast
  have n: "release_next t \<noteq> None" using assms(1) by auto
  have nx: "task_next (release_tasks which body t) w d = release_next t" for w d
    by (simp add: release_tasks_def)
  have "steps (release_tasks which body) 6 c =
           c\<lparr>db := checkpoint_last (checkpoint_completed (db c) (completed_tasks c)) (Some t),
             completed_tasks := completed_tasks c @ [t],
             current_task := release_next t\<rparr>"
    using assms(2,3) by (simp add: eval_nat_numeral run_step_def tool nx)
  with r n show ?thesis by blast
qed

text \<open>
  With no tool installed, \<^verbatim>\<open>check_git\<close> returns \<^verbatim>\<open>None\<close>, is recorded as completed,
  and the engine moves on to \<^verbatim>\<open>check_make\<close>.
\<close>

theorem tool_checks_never_halt_witness:
  "check_git \<in> {check_git, check_make, check_blurb, check_autoconf} \<and>
   at (enter (0::nat) \<lparr>db = Map.empty, current_task = Some check_git, completed_tasks = []\<rparr>
        :: (release_task, nat, string) run_state) = Loop_test \<and>
   current_task (enter (0::nat) \<lparr>db = Map.empty, current_task = Some check_git, completed_tasks = []\<rparr>
        :: (release_task, nat, string) run_state) = Some check_git \<and>
   task_run (release_tasks (\<lambda>w tool. None) (\<lambda>t w d. (Inl ''failed'', w, d)) check_git)
       (0::nat) Map.empty = (Inr VNone, 0, Map.empty) \<and>
   completed_tasks
     (steps (release_tasks (\<lambda>w tool. None) (\<lambda>t w d. (Inl ''failed'', w, d))) 6
        (enter (0::nat) \<lparr>db = Map.empty, current_task = Some check_git, completed_tasks = []\<rparr>))
     = [check_git] \<and>
   current_task
     (steps (release_tasks (\<lambda>w tool. None) (\<lambda>t w d. (Inl ''failed'', w, d))) 6
        (enter (0::nat) \<lparr>db = Map.empty, current_task = Some check_git, completed_tasks = []\<rparr>))
     = Some check_make \<and>
   at (steps (release_tasks (\<lambda>w tool. None) (\<lambda>t w d. (Inl ''failed'', w, d))) 6
        (enter (0::nat) \<lparr>db = Map.empty, current_task = Some check_git, completed_tasks = []\<rparr>))
     = Loop_test"
proof -
  let ?c = "enter (0::nat) \<lparr>db = Map.empty, current_task = Some check_git, completed_tasks = []\<rparr>
        :: (release_task, nat, string) run_state"
  let ?which = "\<lambda>(w::nat) (tool::string). None :: string option"
  let ?body = "\<lambda>(t::release_task) (w::nat) (d::release_task store).
      (Inl ''failed'' :: string + release_task val, w, d)"
  have m: "check_git \<in> {check_git, check_make, check_blurb, check_autoconf}" by simp
  have a: "at ?c = Loop_test" and t: "current_task ?c = Some check_git" by simp_all
  have r: "task_run (release_tasks ?which ?body check_git) (0::nat) Map.empty =
      (Inr VNone, 0, Map.empty)"
    by (simp add: release_tasks_def release_run_def check_tool_def)
  from tool_checks_never_halt [OF m a t, of ?which ?body]
  have s: "steps (release_tasks ?which ?body) 6 ?c =
      ?c\<lparr>db := checkpoint_last (checkpoint_completed (db ?c) (completed_tasks ?c)) (Some check_git),
         completed_tasks := completed_tasks ?c @ [check_git],
         current_task := release_next check_git\<rparr>"
    by blast
  show ?thesis
    unfolding s using m r by simp
qed

end
